theory Spec2Isabelle
  imports Complex_Main "HOL-Library.Multiset"
begin

datatype js_error = SyntaxError | TypeError | RangeError

section \<open>The maze and the collision check (client)\<close>

text \<open>
  A maze as \<open>generateMaze\<close> returns it. The grid is a list of rows, \<open>grid[y][x]\<close>, with 0 for
  floor and 1 for a wall. Cells are pairs of integers (x, y). The \<open>id\<close> of a trap is the
  text of its two coordinates and is not kept. Positions in world units are rationals: the
  rounding of JavaScript's doubles is not modelled.
\<close>

type_synonym Point = "int \<times> int"
datatype trap_state = safe | warning | collapsed
record TrapSquare =
  t_x :: int
  t_y :: int
  t_state :: trap_state

record MazeData =
  grid :: "nat list list"
  width :: int
  height :: int
  start :: Point
  endp :: Point
  traps :: "TrapSquare list"
  safeZones :: "Point list"

definition CELL_SIZE :: rat where "CELL_SIZE = 40"
definition PLAYER_RADIUS :: rat where "PLAYER_RADIUS = 10"

definition lookup :: "'a list list \<Rightarrow> int \<Rightarrow> int \<Rightarrow> 'a option" where
  "lookup g x y =
     (if 0 \<le> y \<and> nat y < length g \<and> 0 \<le> x \<and> nat x < length (g ! nat y)
      then Some (g ! nat y ! nat x) else None)"

definition cell_of :: "rat \<Rightarrow> rat \<Rightarrow> Point" where
  "cell_of x y = (\<lfloor>x / CELL_SIZE\<rfloor>, \<lfloor>y / CELL_SIZE\<rfloor>)"

definition corners :: "rat \<Rightarrow> rat \<Rightarrow> (rat \<times> rat) list" where
  "corners x y =
     (let margin = PLAYER_RADIUS + 2 in
      [(x - margin, y - margin), (x + margin, y - margin),
       (x - margin, y + margin), (x + margin, y + margin)])"

fun corner_loop :: "MazeData \<Rightarrow> (rat \<times> rat) list \<Rightarrow> js_error + bool" where
  "corner_loop m [] = Inr False"
| "corner_loop m (p # ps) =
     (let c = cell_of (fst p) (snd p); gx = fst c; gy = snd c in
      if gx < 0 \<or> gy < 0 \<or> gx \<ge> width m \<or> gy \<ge> height m then Inr True
      else if length (grid m) \<le> nat gy then Inl TypeError
      else if lookup (grid m) gx gy = Some 1 then Inr True
      else corner_loop m ps)"

definition checkCollision :: "rat \<Rightarrow> rat \<Rightarrow> MazeData \<Rightarrow> js_error + bool" where
  "checkCollision x y m = corner_loop m (corners x y)"



definition floor_at :: "MazeData \<Rightarrow> Point \<Rightarrow> bool" where
  "floor_at m c = (lookup (grid m) (fst c) (snd c) = Some 0)"




definition open3 :: MazeData where
  "open3 = \<lparr>grid = [[0,0,0],[0,0,0],[0,0,0]], width = 3, height = 3, start = (0,0), endp = (2,2),
     traps = [], safeZones = []\<rparr>"




section \<open>The maze generator\<close>

text \<open>
  \<open>generateMaze(width, height, difficulty)\<close> of \<open>src/types.ts\<close>. \<open>Math.random\<close> is an input of
  the model: \<open>shuffle rnd k\<close> is the order in which the k-th call of \<open>walk\<close> finds the four
  directions after \<open>sort(() => Math.random() - 0.5)\<close>, and \<open>draw rnd j\<close> is the j-th value of
  \<open>Math.random()\<close> in the trap loop and in the safe-zone fallback. A grid cell is 0 (floor)
  or 1 (wall). A write past the end of a row extends the row as a JavaScript array does,
  the cells in between being holes (written 2 in a grid); a read outside the grid gives
  \<open>None\<close>, for \<open>undefined\<close>. Width and height are integers, the difficulty is a finite
  number.
\<close>

type_synonym maze_grid = "nat list list"

record rng =
  shuffle :: "nat \<Rightarrow> (int \<times> int) list \<Rightarrow> (int \<times> int) list"
  draw :: "nat \<Rightarrow> rat"

definition row_set :: "'a \<Rightarrow> 'a list \<Rightarrow> nat \<Rightarrow> 'a \<Rightarrow> 'a list" where
  "row_set hole row x v =
     (if x < length row then row[x := v] else row @ replicate (x - length row) hole @ [v])"

definition set_cell :: "'a \<Rightarrow> 'a list list \<Rightarrow> int \<Rightarrow> int \<Rightarrow> 'a \<Rightarrow> 'a list list" where
  "set_cell hole g x y v =
     (if 0 \<le> x \<and> 0 \<le> y \<and> nat y < length g
      then g[nat y := row_set hole (g ! nat y) (nat x) v] else g)"

definition directions :: "(int \<times> int) list" where
  "directions = [(0, -2), (0, 2), (-2, 0), (2, 0)]"

definition row_walls :: "nat list \<Rightarrow> nat" where
  "row_walls row = length (filter (\<lambda>c. c = 1) row)"

definition walls :: "maze_grid \<Rightarrow> nat" where
  "walls g = sum_list (map row_walls g)"

text \<open>
  The loop of \<open>walk(x, y)\<close> over the shuffled directions, after \<open>grid[y][x] = 0\<close>. The grid and
  the number of shuffles made so far are passed through the recursive calls. \<open>walls\<close> counts
  the wall cells of a grid: every recursive call of \<open>walk\<close> has turned one into floor.
\<close>

function carve ::
  "rng \<Rightarrow> int \<Rightarrow> int \<Rightarrow> maze_grid \<Rightarrow> int \<Rightarrow> int \<Rightarrow> (int \<times> int) list \<Rightarrow> nat \<Rightarrow> maze_grid \<times> nat" where
  "carve rnd w h g x y [] k = (g, k)"
| "carve rnd w h g x y ((dx, dy) # ds) k =
     (let nx = x + dx; ny = y + dy in
      if 0 \<le> nx \<and> nx < w \<and> 0 \<le> ny \<and> ny < h \<and> lookup g nx ny = Some 1 then
        (let g1 = set_cell 2 g (x + dx div 2) (y + dy div 2) 0;
             r = carve rnd w h (set_cell 2 g1 nx ny 0) nx ny (shuffle rnd k directions) (Suc k)
         in carve rnd w h (fst r) x y ds (snd r))
      else carve rnd w h g x y ds k)"
  by pat_completeness auto

lemma filter_update_le:
  "\<not> P v \<Longrightarrow> length (filter P (xs[i := v])) \<le> length (filter P xs)"
proof (induction xs arbitrary: i)
  case Nil then show ?case by simp
next
  case (Cons a xs) then show ?case by (cases i) (auto simp: le_SucI)
qed

lemma walls_row_set: "row_walls (row_set 2 row x 0) \<le> row_walls row"
  by (simp add: row_set_def row_walls_def filter_update_le)

lemma sum_list_map_update_le:
  fixes f :: "'a \<Rightarrow> nat"
  assumes "i < length xs" "f r \<le> f (xs ! i)"
  shows "sum_list (map f (xs[i := r])) \<le> sum_list (map f xs)"
  using assms
proof (induction xs arbitrary: i)
  case Nil then show ?case by simp
next
  case (Cons a xs) then show ?case by (cases i) auto
qed

lemma sum_list_map_update_less:
  fixes f :: "'a \<Rightarrow> nat"
  assumes "i < length xs" "f r < f (xs ! i)"
  shows "sum_list (map f (xs[i := r])) < sum_list (map f xs)"
  using assms
proof (induction xs arbitrary: i)
  case Nil then show ?case by simp
next
  case (Cons a xs) then show ?case by (cases i) auto
qed

lemma walls_set_cell_le: "walls (set_cell 2 g x y 0) \<le> walls g"
  unfolding walls_def set_cell_def
  by (auto intro!: sum_list_map_update_le walls_row_set)

lemma filter_update_less:
  fixes xs :: "nat list"
  assumes "i < length xs" "xs ! i = 1"
  shows "length (filter (\<lambda>c. c = 1) (xs[i := 0])) < length (filter (\<lambda>c. c = 1) xs)"
  using assms
proof (induction xs arbitrary: i)
  case Nil then show ?case by simp
next
  case (Cons a xs) then show ?case by (cases i) (auto simp: less_SucI)
qed

lemma walls_set_cell_less:
  assumes "lookup g x y = Some 1"
  shows "walls (set_cell 2 g x y 0) < walls g"
proof -
  from assms have r: "0 \<le> y" "nat y < length g" "0 \<le> x" "nat x < length (g ! nat y)"
    and v: "g ! nat y ! nat x = 1"
    by (auto simp: lookup_def split: if_splits)
  have "row_walls (row_set 2 (g ! nat y) (nat x) 0) < row_walls (g ! nat y)"
    using r v filter_update_less [of "nat x" "g ! nat y"] by (simp add: row_set_def row_walls_def)
  then show ?thesis
    unfolding walls_def set_cell_def using r
    by (auto intro!: sum_list_map_update_less)
qed

lemma lookup_set_cell_other:
  assumes "lookup g x' y' = Some v'" "(x', y') \<noteq> (x, y)"
  shows "lookup (set_cell hole g x y v) x' y' = Some v'"
  using assms
  by (auto simp: lookup_def set_cell_def row_set_def nth_list_update nth_append split: if_splits)

lemma walls_carve_step:
  assumes "lookup g nx ny = Some 1"
  shows "walls (set_cell 2 (set_cell 2 g mx my 0) nx ny 0) < walls g"
proof (cases "(nx, ny) = (mx, my)")
  case True
  have "walls (set_cell 2 (set_cell 2 g mx my 0) nx ny 0) \<le> walls (set_cell 2 g mx my 0)"
    by (rule walls_set_cell_le)
  also have "\<dots> < walls g" using True assms walls_set_cell_less [of g nx ny] by simp
  finally show ?thesis .
next
  case False
  then have "lookup (set_cell 2 g mx my 0) nx ny = Some 1"
    using assms by (rule_tac lookup_set_cell_other) auto
  then have "walls (set_cell 2 (set_cell 2 g mx my 0) nx ny 0) < walls (set_cell 2 g mx my 0)"
    by (rule walls_set_cell_less)
  also have "\<dots> \<le> walls g" by (rule walls_set_cell_le)
  finally show ?thesis .
qed

lemma carve_walls_le_dom:
  "carve_dom (rnd, w, h, g, x, y, ds, k) \<Longrightarrow> walls (fst (carve rnd w h g x y ds k)) \<le> walls g"
proof (induction rnd w h g x y ds k rule: carve.pinduct)
  case (1 rnd w h g x y k)
  then show ?case by (simp add: carve.psimps)
next
  case (2 rnd w h g x y dx dy ds k)
  let ?nx = "x + dx" and ?ny = "y + dy"
  show ?case
  proof (cases "0 \<le> ?nx \<and> ?nx < w \<and> 0 \<le> ?ny \<and> ?ny < h \<and> lookup g ?nx ?ny = Some 1")
    case True
    let ?g1 = "set_cell 2 g (x + dx div 2) (y + dy div 2) 0"
    let ?r = "carve rnd w h (set_cell 2 ?g1 ?nx ?ny 0) ?nx ?ny (shuffle rnd k directions) (Suc k)"
    have a: "walls (fst ?r) \<le> walls (set_cell 2 ?g1 ?nx ?ny 0)"
      using "2.IH"(1) [OF refl refl True refl] .
    have b: "walls (fst (carve rnd w h (fst ?r) x y ds (snd ?r))) \<le> walls (fst ?r)"
      using "2.IH"(2) [OF refl refl True refl refl] .
    have c: "walls (set_cell 2 ?g1 ?nx ?ny 0) < walls g"
      using True by (intro walls_carve_step) simp
    have "carve rnd w h g x y ((dx, dy) # ds) k = carve rnd w h (fst ?r) x y ds (snd ?r)"
      by (simp only: carve.psimps(2) [OF "2.hyps"] Let_def if_P [OF True])
    then show ?thesis using a b c by simp
  next
    case False
    have "carve rnd w h g x y ((dx, dy) # ds) k = carve rnd w h g x y ds k"
      by (simp only: carve.psimps(2) [OF "2.hyps"] Let_def if_not_P [OF False])
    then show ?thesis using "2.IH"(3) [OF refl refl False] by simp
  qed
qed

termination carve
proof (relation "inv_image (less_than <*lex*> less_than)
    (\<lambda>(rnd, w, h, g, x, y, ds, k). (walls g, length ds))", goal_cases)
  case 1
  show ?case by (intro wf_inv_image wf_lex_prod wf_less_than)
next
  case (2 rnd w h g x y dx dy ds k xa xb xc)
  then show ?case using walls_carve_step [of g xa xb] by simp
next
  case (3 rnd w h g x y dx dy ds k xa xb xc xd)
  have "walls (fst xd) \<le> walls (set_cell 2 xc xa xb 0)"
    using 3 carve_walls_le_dom by simp
  moreover have "walls (set_cell 2 xc xa xb 0) < walls g"
    using 3 walls_carve_step [of g xa xb] by simp
  ultimately show ?case by simp
next
  case (4 rnd w h g x y dx dy ds k xa xb)
  then show ?case by simp
qed

definition walk :: "rng \<Rightarrow> int \<Rightarrow> int \<Rightarrow> maze_grid \<Rightarrow> int \<Rightarrow> int \<Rightarrow> nat \<Rightarrow> maze_grid \<times> nat" where
  "walk rnd w h g x y k = carve rnd w h (set_cell 2 g x y 0) x y (shuffle rnd k directions) (Suc k)"


text \<open>End cell: rings around the bottom-right corner, the first floor cell found.\<close>

definition ring_cells :: "int \<Rightarrow> int \<Rightarrow> int \<Rightarrow> Point list" where
  "ring_cells w h d =
     concat (map (\<lambda>ty. map (\<lambda>tx. (tx, ty)) (rev [max 0 (w - 1 - d) .. w - 1]))
                 (rev [max 0 (h - 1 - d) .. h - 1]))"

definition scan_cells :: "int \<Rightarrow> int \<Rightarrow> Point list" where
  "scan_cells w h = concat (map (ring_cells w h) [0 .. max w h - 1])"

definition find_end :: "int \<Rightarrow> int \<Rightarrow> maze_grid \<Rightarrow> Point" where
  "find_end w h g =
     (case find (\<lambda>c. lookup g (fst c) (snd c) = Some 0) (scan_cells w h) of
        Some c \<Rightarrow> c
      | None \<Rightarrow> (w - 1, h - 1))"

text \<open>One attempt of the trap loop: two random coordinates, kept when the cell is floor,
  is neither (0, 0) nor the end cell, and holds no trap yet.\<close>

definition try_trap ::
  "rng \<Rightarrow> int \<Rightarrow> int \<Rightarrow> maze_grid \<Rightarrow> Point \<Rightarrow> TrapSquare list \<Rightarrow> nat \<Rightarrow> TrapSquare list" where
  "try_trap rnd w h g e trs j =
     (let tx = \<lfloor>draw rnd j * of_int w\<rfloor>;
          ty = \<lfloor>draw rnd (j + 1) * of_int h\<rfloor>
      in if lookup g tx ty = Some 0 \<and> \<not> (tx = 0 \<and> ty = 0)
            \<and> \<not> (tx = fst e \<and> ty = snd e)
            \<and> find (\<lambda>t. t_x t = tx \<and> t_y t = ty) trs = None
         then trs @ [\<lparr>t_x = tx, t_y = ty, t_state = safe\<rparr>] else trs)"

function trap_loop ::
  "rng \<Rightarrow> int \<Rightarrow> int \<Rightarrow> maze_grid \<Rightarrow> Point \<Rightarrow> int \<Rightarrow> TrapSquare list \<Rightarrow> nat \<Rightarrow> nat
     \<Rightarrow> TrapSquare list \<times> nat \<times> nat" where
  "trap_loop rnd w h g e trapCount trs attempts j =
     (if int (length trs) < trapCount \<and> attempts < 100
      then trap_loop rnd w h g e trapCount (try_trap rnd w h g e trs j) (attempts + 1) (j + 2)
      else (trs, attempts, j))"
  by pat_completeness auto
termination
  by (relation "measure (\<lambda>(rnd, w, h, g, e, trapCount, trs, attempts, j). 100 - attempts)") auto

declare trap_loop.simps [simp del]

type_synonym bfs_state = "bool list list \<times> (Point \<rightharpoonup> Point) \<times> Point list"

definition bfs_dirs :: "(int \<times> int) list" where
  "bfs_dirs = [(0, 1), (1, 0), (0, -1), (-1, 0)]"

definition visit :: "int \<Rightarrow> int \<Rightarrow> maze_grid \<Rightarrow> Point \<Rightarrow> bfs_state \<Rightarrow> int \<times> int \<Rightarrow> bfs_state" where
  "visit w h g cur st d =
     (case st of (visited, parent, queue) \<Rightarrow>
        (let nx = fst cur + fst d; ny = snd cur + snd d in
         if 0 \<le> nx \<and> nx < w \<and> 0 \<le> ny \<and> ny < h \<and> lookup g nx ny = Some 0
            \<and> lookup visited nx ny \<noteq> Some True
         then (set_cell False visited nx ny True, parent((nx, ny) \<mapsto> cur), queue @ [(nx, ny)])
         else (visited, parent, queue)))"

partial_function (option) bfs :: "int \<Rightarrow> int \<Rightarrow> maze_grid \<Rightarrow> Point \<Rightarrow> bfs_state \<Rightarrow> bfs_state option" where
  "bfs w h g e st =
     (case st of (visited, parent, queue) \<Rightarrow>
        (case queue of
           [] \<Rightarrow> Some st
         | cur # rest \<Rightarrow>
            if cur = e then Some (visited, parent, rest)
            else bfs w h g e (foldl (visit w h g cur) (visited, parent, rest) bfs_dirs)))"

declare bfs.simps [code]

partial_function (option) trace_back :: "(Point \<rightharpoonup> Point) \<Rightarrow> Point \<Rightarrow> Point list \<Rightarrow> Point list option" where
  "trace_back parent cur path =
     (case parent cur of
        None \<Rightarrow> Some (path @ [cur])
      | Some p \<Rightarrow> trace_back parent p (path @ [cur]))"

declare trace_back.simps [code]

partial_function (option) pick_safe ::
  "rng \<Rightarrow> int \<Rightarrow> int \<Rightarrow> maze_grid \<Rightarrow> Point list \<Rightarrow> nat \<Rightarrow> (Point list \<times> nat) option" where
  "pick_safe rnd w h g zones j =
     (let sx = \<lfloor>draw rnd j * of_int w\<rfloor>; sy = \<lfloor>draw rnd (j + 1) * of_int h\<rfloor> in
      if lookup g sx sy = Some 0 \<and> find (\<lambda>p. fst p = sx \<and> snd p = sy) zones = None
      then Some (zones @ [(sx, sy)], j + 2)
      else pick_safe rnd w h g zones (j + 2))"

declare pick_safe.simps [code]

fun fallback_zones ::
  "rng \<Rightarrow> int \<Rightarrow> int \<Rightarrow> maze_grid \<Rightarrow> nat \<Rightarrow> Point list \<Rightarrow> nat \<Rightarrow> (Point list \<times> nat) option" where
  "fallback_zones rnd w h g 0 zones j = Some (zones, j)"
| "fallback_zones rnd w h g (Suc n) zones j =
     (case pick_safe rnd w h g zones j of
        None \<Rightarrow> None
      | Some (zones', j') \<Rightarrow> fallback_zones rnd w h g n zones' j')"

definition safeZoneCount :: "rat \<Rightarrow> int" where
  "safeZoneCount difficulty = max 1 (4 - \<lfloor>difficulty / 3\<rfloor>)"

definition path_zones :: "Point list \<Rightarrow> int \<Rightarrow> Point list" where
  "path_zones path cnt =
     (let step = int (length path) div (cnt + 1) in
      map (\<lambda>i. path ! nat (min (i * step) (int (length path) - 1))) [1 .. cnt])"

definition trapCount_of :: "int \<Rightarrow> int \<Rightarrow> rat \<Rightarrow> int" where
  "trapCount_of w h difficulty = \<lfloor>of_int (w * h) * (5 / 100) * difficulty\<rfloor>"

definition visited0 :: "int \<Rightarrow> int \<Rightarrow> bool list list" where
  "visited0 w h = set_cell False (replicate (nat h) (replicate (nat w) False)) 0 0 True"

text \<open>
  The breadth-first search from (0, 0) and the walk back from the end cell along the
  parent pointers, reversed: the list \<open>path\<close> of the source.
\<close>

definition find_path :: "int \<Rightarrow> int \<Rightarrow> maze_grid \<Rightarrow> Point \<Rightarrow> Point list option" where
  "find_path w h g e =
     (case bfs w h g e (visited0 w h, Map.empty, [(0, 0)]) of
        None \<Rightarrow> None
      | Some (visited, parent, queue) \<Rightarrow>
         (case trace_back parent e [] of
            None \<Rightarrow> None
          | Some rpath \<Rightarrow> Some (rev rpath)))"

definition gen :: "int \<Rightarrow> int \<Rightarrow> rat \<Rightarrow> rng \<Rightarrow> (js_error + MazeData) option" where
  "gen w h difficulty rnd =
     (let g = fst (walk rnd w h (replicate (nat h) (replicate (nat w) 1)) 0 0 0);
          e = find_end w h g;
          tr = trap_loop rnd w h g e (trapCount_of w h difficulty) [] 0 0
      in case find_path w h g e of
           None \<Rightarrow> None
         | Some path \<Rightarrow>
            (if length path > 0
             then Some (Inr \<lparr>grid = g, width = w, height = h, start = (0, 0), endp = e,
                    traps = fst tr, safeZones = path_zones path (safeZoneCount difficulty)\<rparr>)
             else (case fallback_zones rnd w h g (nat (safeZoneCount difficulty)) [] (snd (snd tr)) of
                     None \<Rightarrow> None
                   | Some (zones, j) \<Rightarrow>
                      Some (Inr \<lparr>grid = g, width = w, height = h, start = (0, 0), endp = e,
                        traps = fst tr, safeZones = zones\<rparr>))))"

text \<open>
  \<open>Array(height)\<close> throws a RangeError for a negative height, and \<open>Array(width)\<close> for a
  negative width when there is a row to build; with no row at all, \<open>grid[0][0] = 0\<close> in the
  first call of \<open>walk\<close> throws a TypeError.
\<close>

definition generateMaze :: "int \<Rightarrow> int \<Rightarrow> rat \<Rightarrow> rng \<Rightarrow> (js_error + MazeData) option" where
  "generateMaze w h difficulty rnd =
     (if h < 0 then Some (Inl RangeError)
      else if h = 0 then Some (Inl TypeError)
      else if w < 0 then Some (Inl RangeError)
      else gen w h difficulty rnd)"

definition rng0 :: rng where
  "rng0 = \<lparr>shuffle = (\<lambda>k ds. if even k then ds else rev ds),
            draw = (\<lambda>j. of_nat ((j * 7) mod 16) / 16)\<rparr>"



definition rng1 :: rng where
  "rng1 = \<lparr>shuffle = (\<lambda>k ds. if even k then rev ds else ds),
            draw = (\<lambda>j. of_nat ((j * 5) mod 16) / 16)\<rparr>"

section \<open>The client state machine\<close>

text \<open>
  The client is one React component. Its state variables are the fields of the record
  \<open>app\<close>; a \<open>ref\<close> that mirrors a state variable is the same field. Every callback (the
  100 ms timer, the 16 ms movement timer, a socket message, a click, a key, a deferred
  \<open>setTimeout\<close> action) is one atomic step, and its writes apply in program order. What
  is only drawn or played (the canvas, sound, the other players, the pursuer's position)
  is left out, and so are the headings: the movement step takes the displacement of the
  tick as its input. A pending \<open>setTimeout\<close> action is kept in the state until it fires;
  the code never cancels one.
\<close>

datatype gameState =
  lobby | tutorial | practice | playing | shop | distractor | won | lost | respawning | gameover

datatype tutorialStep = t_intro | t_example | t_practice | t_phase2 | t_phase3

datatype flash = red | yellow

definition TRAP_CYCLE_TIME :: rat where "TRAP_CYCLE_TIME = 8"
definition PHASE_DURATION :: rat where "PHASE_DURATION = 300"
definition SHOP_DURATION :: rat where "SHOP_DURATION = 30"
definition DISTRACTOR_DURATION :: rat where "DISTRACTOR_DURATION = 120"
definition PRACTICE_DURATION :: rat where "PRACTICE_DURATION = 30"

record app =
  maze :: "MazeData option"
  myPos :: "rat \<times> rat"
  gameState :: gameState
  tutorialStep :: tutorialStep
  phase2FlashType :: flash
  wipeTimer :: rat
  phase :: int
  phaseTime :: rat
  shopTimer :: rat
  distractorTimer :: rat
  shopStarted :: bool
  practiceTimer :: rat
  coins :: int
  debugMode :: bool
  difficulty :: rat
  mazesCompleted :: nat
  phaseMazes :: nat
  surveyDone :: bool
  subjectId :: string
  shopChosen :: bool
  winner :: "(string \<times> rat) option"
  time :: rat
  trapTimer :: rat
  pendingRespawns :: "(gameState \<times> (rat \<times> rat)) list"
  pendingShop :: nat

definition app0 :: app where
  "app0 = \<lparr>maze = None, myPos = (0, 0), gameState = lobby, tutorialStep = t_intro,
     phase2FlashType = yellow, wipeTimer = 30, phase = 1, phaseTime = PHASE_DURATION,
     shopTimer = SHOP_DURATION, distractorTimer = DISTRACTOR_DURATION, shopStarted = False,
     practiceTimer = PRACTICE_DURATION, coins = 0, debugMode = False, difficulty = 1,
     mazesCompleted = 0, phaseMazes = 0, surveyDone = False, subjectId = [],
     shopChosen = False, winner = None, time = 0, trapTimer = TRAP_CYCLE_TIME,
     pendingRespawns = [], pendingShop = 0\<rparr>"

definition start_pos :: "MazeData \<Rightarrow> rat \<times> rat" where
  "start_pos m = (of_int (fst (start m)) * CELL_SIZE + CELL_SIZE / 2,
                  of_int (snd (start m)) * CELL_SIZE + CELL_SIZE / 2)"

definition maze_size :: "rat \<Rightarrow> int" where
  "maze_size d = 12 + \<lfloor>d * (3 / 2)\<rfloor>"

text \<open>
  \<open>initGame(newDifficulty, targetState)\<close>; every call site passes \<open>undefined\<close> for the first
  argument, so the difficulty is the current one. It has no next state when
  \<open>generateMaze\<close> throws or does not return.
\<close>

definition initGame :: "app \<Rightarrow> gameState \<Rightarrow> rng \<Rightarrow> app option" where
  "initGame s targetState rnd =
     (let d = difficulty s; size = maze_size d in
      case generateMaze size size d rnd of
        Some (Inr newMaze) \<Rightarrow>
          Some (s\<lparr>maze := Some newMaze, myPos := start_pos newMaze, gameState := targetState,
                  time := 0, trapTimer := TRAP_CYCLE_TIME + of_int \<lfloor>d / 2\<rfloor>, winner := None,
                  shopChosen := False, shopStarted := False,
                  distractorTimer := DISTRACTOR_DURATION,
                  wipeTimer := 10 + of_int \<lfloor>d / 2\<rfloor>\<rparr>)
      | _ \<Rightarrow> None)"

text \<open>\<open>respawn()\<close>: the state becomes respawning and a deferred action is scheduled.\<close>

definition respawn :: "app \<Rightarrow> app" where
  "respawn s =
     (case maze s of
        None \<Rightarrow> s
      | Some m \<Rightarrow>
          s\<lparr>gameState := respawning,
            pendingRespawns := pendingRespawns s @
              [(if gameState s = practice then practice else playing, start_pos m)]\<rparr>)"

definition in_safe_zone :: "app \<Rightarrow> bool" where
  "in_safe_zone s =
     (case maze s of
        None \<Rightarrow> False
      | Some m \<Rightarrow> cell_of (fst (myPos s)) (snd (myPos s)) \<in> set (safeZones m))"

definition wipe_tick :: "app \<Rightarrow> app" where
  "wipe_tick s =
     (if phase s = 3 then
        (if wipeTimer s \<le> 1 / 10
         then (if in_safe_zone s then s else respawn s)\<lparr>wipeTimer := 10 + of_int \<lfloor>difficulty s / 2\<rfloor>\<rparr>
         else s\<lparr>wipeTimer := wipeTimer s - 1 / 10\<rparr>)
      else s)"

definition trap_tick :: "flash \<Rightarrow> app \<Rightarrow> app" where
  "trap_tick fl s =
     (if trapTimer s \<le> 1 / 10
      then s\<lparr>phase2FlashType := (if phase s = 2 then fl else phase2FlashType s),
             trapTimer := TRAP_CYCLE_TIME + of_int \<lfloor>difficulty s / 2\<rfloor>\<rparr>
      else s\<lparr>trapTimer := trapTimer s - 1 / 10\<rparr>)"

definition phase_clock :: "app \<Rightarrow> app" where
  "phase_clock s =
     (if phaseTime s \<le> 1 / 10 then
        (if phase s < 3
         then s\<lparr>gameState := shop, shopTimer := SHOP_DURATION, phaseTime := PHASE_DURATION\<rparr>
         else s\<lparr>gameState := gameover, phaseTime := 0\<rparr>)
      else s\<lparr>phaseTime := phaseTime s - 1 / 10\<rparr>)"

definition practice_clock :: "rng \<Rightarrow> app \<Rightarrow> app option" where
  "practice_clock rnd s =
     (if practiceTimer s \<le> 1 / 10
      then map_option (\<lambda>s'. s'\<lparr>practiceTimer := 0\<rparr>) (initGame s playing rnd)
      else Some (s\<lparr>practiceTimer := practiceTimer s - 1 / 10\<rparr>))"

definition shop_clock :: "app \<Rightarrow> app" where
  "shop_clock s =
     (let s1 = s\<lparr>shopStarted := True\<rparr> in
      if shopTimer s1 \<le> 1 / 10 then s1\<lparr>gameState := distractor, shopTimer := 0\<rparr>
      else s1\<lparr>shopTimer := shopTimer s1 - 1 / 10\<rparr>)"

definition distractor_clock :: "rng \<Rightarrow> app \<Rightarrow> app option" where
  "distractor_clock rnd s =
     (if distractorTimer s \<le> 1 / 10 then
        (let nextPhase = phase s + 1; s1 = s\<lparr>phase := nextPhase, phaseMazes := 0\<rparr> in
         if nextPhase = 2
           then Some (s1\<lparr>gameState := tutorial, tutorialStep := t_phase2, distractorTimer := 0\<rparr>)
         else if nextPhase = 3
           then Some (s1\<lparr>gameState := tutorial, tutorialStep := t_phase3, distractorTimer := 0\<rparr>)
         else map_option (\<lambda>s'. s'\<lparr>distractorTimer := 0\<rparr>) (initGame s1 playing rnd))
      else Some (s\<lparr>distractorTimer := distractorTimer s - 1 / 10\<rparr>))"

text \<open>The callback of the 100 ms interval; the interval runs in four of the states.\<close>

definition tick :: "rng \<Rightarrow> flash \<Rightarrow> app \<Rightarrow> app option" where
  "tick rnd fl s =
     (if gameState s = playing then
        (let s1 = trap_tick fl (wipe_tick s) in Some (phase_clock (s1\<lparr>time := time s1 + 1 / 10\<rparr>)))
      else if gameState s = practice then practice_clock rnd (trap_tick fl (wipe_tick s))
      else if gameState s = shop then Some (shop_clock s)
      else if gameState s = distractor then distractor_clock rnd s
      else None)"

definition earned :: "rat \<Rightarrow> int" where
  "earned elapsed = max 1 (min 5 \<lfloor>30 / (elapsed + 1)\<rfloor>)"

definition frozen :: "app \<Rightarrow> bool" where
  "frozen s = (phase s = 2 \<and> trapTimer s \<le> (if phase2FlashType s = yellow then 3 else 1))"

definition win :: "app \<Rightarrow> app" where
  "win s =
     s\<lparr>coins := coins s + earned (time s),
       mazesCompleted := mazesCompleted s + 1,
       phaseMazes := phaseMazes s + 1,
       gameState := won,
       winner := Some (''me'', time s),
       difficulty := min (difficulty s + (if time s < 20 then 1 else 1 / 2)) 10\<rparr>"

text \<open>
  The body of the 16 ms movement callback after the heading is interpolated. \<open>moving\<close>
  says that a direction key is held, \<open>(dx, dy)\<close> is the displacement along the target
  heading. It has no next state when the collision check throws.
\<close>

definition move :: "rat \<Rightarrow> rat \<Rightarrow> bool \<Rightarrow> app \<Rightarrow> app option" where
  "move dx dy moving s =
     (case maze s of
        None \<Rightarrow> Some s
      | Some m \<Rightarrow>
         if \<not> moving then Some s
         else
          (case (checkCollision (fst (myPos s) + dx) (snd (myPos s)) m,
                 checkCollision (fst (myPos s)) (snd (myPos s) + dy) m) of
             (Inr bx, Inr by) \<Rightarrow>
               (let nextX = (if bx then fst (myPos s) else fst (myPos s) + dx);
                    nextY = (if by then snd (myPos s) else snd (myPos s) + dy)
                in if frozen s then Some (respawn s)
                   else
                    (let s1 = (if cell_of nextX nextY = endp m then
                                 (if gameState s = practice then respawn s
                                  else if gameState s = playing then win s
                                  else s)
                               else s)
                     in Some (s1\<lparr>myPos := (nextX, nextY)\<rparr>)))
           | _ \<Rightarrow> None))"

definition on_trap :: "app \<Rightarrow> bool" where
  "on_trap s =
     (case maze s of
        None \<Rightarrow> False
      | Some m \<Rightarrow>
          find (\<lambda>t. (t_x t, t_y t) = cell_of (fst (myPos s)) (snd (myPos s))) (traps m) \<noteq> None)"

datatype event =
    Tick rng flash
  | Move rat rat bool
  | TrapEffect
  | AiCatch
  | PlayerJoined "MazeData option"
  | GameOverMsg bool rat
  | SubjectId string
  | LobbyStart
  | TutorialButton rng
  | SurveyComplete rng
  | ShopBuy
  | ShopGamble bool
  | ShopTimeout
  | RespawnTimeout
  | NextIteration rng
  | DebugSkip
  | DebugCoins
  | ExternalSkip

text \<open>
  One callback. \<open>None\<close>: the callback cannot run in this state (its timer is not
  running, its button is not shown or is disabled, nothing is pending), or it does not
  return.
\<close>

fun step :: "event \<Rightarrow> app \<Rightarrow> app option" where
  "step (Tick rnd fl) s = tick rnd fl s"
| "step (Move dx dy moving) s =
     (if gameState s = playing \<or> gameState s = practice then move dx dy moving s else None)"
| "step TrapEffect s =
     (if (gameState s = playing \<or> gameState s = practice) \<and> phase s = 1 \<and> on_trap s
         \<and> trapTimer s < 1 / 2
      then Some (respawn s) else None)"
| "step AiCatch s =
     (if maze s = None then None
      else if gameState s = practice then Some (respawn s)
      else if gameState s = playing then Some (s\<lparr>gameState := lost, winner := Some (''AI-GHOST'', time s)\<rparr>)
      else None)"
| "step (PlayerJoined mz) s =
     Some (if mz \<noteq> None \<and> maze s = None then s\<lparr>maze := mz\<rparr> else s)"
| "step (GameOverMsg mine t) s =
     Some (s\<lparr>gameState := (if mine then won else lost),
              winner := Some (if mine then ''me'' else ''other'', t),
              difficulty := (if mine then min (difficulty s + 1 / 2) 10 else difficulty s)\<rparr>)"
| "step (SubjectId v) s = (if gameState s = lobby then Some (s\<lparr>subjectId := v\<rparr>) else None)"
| "step LobbyStart s =
     (if gameState s = lobby \<and> subjectId s \<noteq> []
      then Some (s\<lparr>gameState := tutorial, tutorialStep := t_intro\<rparr>) else None)"
| "step (TutorialButton rnd) s =
     (if gameState s \<noteq> tutorial then None
      else if tutorialStep s = t_intro then Some (s\<lparr>tutorialStep := t_example\<rparr>)
      else if tutorialStep s = t_example \<or> tutorialStep s = t_phase2 \<or> tutorialStep s = t_phase3
        then map_option (\<lambda>s'. s'\<lparr>practiceTimer := PRACTICE_DURATION\<rparr>) (initGame s practice rnd)
      else initGame s playing rnd)"
| "step (SurveyComplete rnd) s =
     (if surveyDone s \<or> gameState s = lobby then None
      else initGame (s\<lparr>surveyDone := True, practiceTimer := PRACTICE_DURATION\<rparr>) practice rnd)"
| "step ShopBuy s =
     (if gameState s = shop \<and> 2 \<le> coins s \<and> \<not> shopChosen s
      then Some (s\<lparr>shopChosen := True, coins := coins s - 2, pendingShop := pendingShop s + 1\<rparr>)
      else None)"
| "step (ShopGamble lucky) s =
     (if gameState s = shop \<and> 5 \<le> coins s \<and> \<not> shopChosen s
      then Some (s\<lparr>shopChosen := True, coins := (if lucky then coins s * 2 else 0),
                   pendingShop := pendingShop s + 1\<rparr>)
      else None)"
| "step ShopTimeout s =
     (if 0 < pendingShop s
      then Some (s\<lparr>pendingShop := pendingShop s - 1, gameState := distractor\<rparr>) else None)"
| "step RespawnTimeout s =
     (case pendingRespawns s of
        [] \<Rightarrow> None
      | (target, pos) # rest \<Rightarrow>
          Some (s\<lparr>pendingRespawns := rest, myPos := pos, gameState := target\<rparr>))"
| "step (NextIteration rnd) s =
     (if gameState s = won \<or> gameState s = lost then initGame s playing rnd else None)"
| "step DebugSkip s =
     Some (let s1 = s\<lparr>debugMode := True\<rparr> in
           if gameState s = playing then s1\<lparr>phaseTime := 1 / 10\<rparr>
           else if gameState s = shop then s1\<lparr>shopTimer := 1 / 10\<rparr>
           else if gameState s = practice then s1\<lparr>practiceTimer := 1 / 10\<rparr>
           else if gameState s = distractor then s1\<lparr>distractorTimer := 1 / 10\<rparr>
           else s1)"
| "step DebugCoins s = Some (s\<lparr>coins := coins s + 10\<rparr>)"
| "step ExternalSkip s =
     Some (let s1 = s\<lparr>debugMode := True\<rparr> in
           if gameState s = playing then s1\<lparr>phaseTime := 1 / 10\<rparr>
           else if gameState s = shop then s1\<lparr>shopTimer := 1 / 10\<rparr>
           else s1)"

fun run :: "event list \<Rightarrow> app \<Rightarrow> app option" where
  "run [] s = Some s"
| "run (e # es) s = (case step e s of None \<Rightarrow> None | Some s' \<Rightarrow> run es s')"

definition reachable :: "app \<Rightarrow> bool" where
  "reachable s = (\<exists>es. run es app0 = Some s)"

text \<open>
  A short session: the subject id is entered, the protocol is started, the audio survey
  is completed (which starts the practice round on a 13x13 maze) and the debug key sets
  the practice timer to its last tick.
\<close>

definition practice_trace :: "event list" where
  "practice_trace = [SubjectId ''s01'', LobbyStart, SurveyComplete rng0, DebugSkip]"

definition maze13a :: MazeData where
  "maze13a =
     \<lparr>grid =
        [[0, 1, 0, 0, 0, 1, 0, 0, 0, 1, 0, 0, 0],
         [0, 1, 0, 1, 0, 1, 0, 1, 0, 1, 0, 1, 0],
         [0, 0, 0, 1, 0, 0, 0, 1, 0, 0, 0, 1, 0],
         [1, 1, 1, 1, 1, 1, 1, 1, 1, 1, 1, 1, 0],
         [0, 0, 0, 1, 0, 0, 0, 1, 0, 0, 0, 1, 0],
         [0, 1, 0, 1, 0, 1, 0, 1, 0, 1, 0, 1, 0],
         [0, 1, 0, 0, 0, 1, 0, 0, 0, 1, 0, 0, 0],
         [0, 1, 1, 1, 1, 1, 1, 1, 1, 1, 1, 1, 1],
         [0, 1, 0, 0, 0, 1, 0, 0, 0, 1, 0, 0, 0],
         [0, 1, 0, 1, 0, 1, 0, 1, 0, 1, 0, 1, 0],
         [0, 0, 0, 1, 0, 0, 0, 1, 0, 0, 0, 1, 0],
         [1, 1, 1, 1, 1, 1, 1, 1, 1, 1, 1, 1, 0],
         [0, 0, 0, 0, 0, 0, 0, 0, 0, 0, 0, 0, 0]],
      width = 13, height = 13, start = (0, 0), endp = (12, 12),
      traps =
        [\<lparr>t_x = 0, t_y = 5, t_state = safe\<rparr>, \<lparr>t_x = 9, t_y = 2, t_state = safe\<rparr>,
         \<lparr>t_x = 8, t_y = 0, t_state = safe\<rparr>, \<lparr>t_x = 6, t_y = 12, t_state = safe\<rparr>,
         \<lparr>t_x = 4, t_y = 10, t_state = safe\<rparr>, \<lparr>t_x = 3, t_y = 8, t_state = safe\<rparr>],
      safeZones = [(8, 1), (10, 4), (1, 4), (6, 10)]\<rparr>"

definition maze13b :: MazeData where
  "maze13b =
     \<lparr>grid =
        [[0, 0, 0, 1, 0, 0, 0, 1, 0, 0, 0, 1, 0],
         [1, 1, 0, 1, 0, 1, 0, 1, 0, 1, 0, 1, 0],
         [0, 1, 0, 0, 0, 1, 0, 0, 0, 1, 0, 0, 0],
         [0, 1, 1, 1, 1, 1, 1, 1, 1, 1, 1, 1, 0],
         [0, 0, 0, 1, 0, 0, 0, 1, 0, 0, 0, 1, 0],
         [0, 1, 0, 1, 0, 1, 0, 1, 0, 1, 0, 1, 0],
         [0, 1, 0, 0, 0, 1, 0, 0, 0, 1, 0, 0, 0],
         [0, 1, 1, 1, 1, 1, 1, 1, 1, 1, 1, 1, 1],
         [0, 0, 0, 1, 0, 0, 0, 1, 0, 0, 0, 1, 0],
         [1, 1, 0, 1, 0, 1, 0, 1, 0, 1, 0, 1, 0],
         [0, 1, 0, 0, 0, 1, 0, 0, 0, 1, 0, 0, 0],
         [0, 1, 1, 1, 1, 1, 1, 1, 1, 1, 1, 1, 0],
         [0, 0, 0, 0, 0, 0, 0, 0, 0, 0, 0, 0, 0]],
      width = 13, height = 13, start = (0, 0), endp = (12, 12),
      traps =
        [\<lparr>t_x = 0, t_y = 4, t_state = safe\<rparr>, \<lparr>t_x = 8, t_y = 12, t_state = safe\<rparr>,
         \<lparr>t_x = 11, t_y = 2, t_state = safe\<rparr>, \<lparr>t_x = 6, t_y = 10, t_state = safe\<rparr>,
         \<lparr>t_x = 9, t_y = 0, t_state = safe\<rparr>, \<lparr>t_x = 4, t_y = 8, t_state = safe\<rparr>],
      safeZones = [(8, 1), (10, 4), (2, 5), (4, 8)]\<rparr>"

definition practice_end :: app where
  "practice_end =
     \<lparr>maze = Some maze13a, myPos = (20, 20), gameState = practice, tutorialStep = t_intro,
      phase2FlashType = yellow, wipeTimer = 10, phase = 1, phaseTime = 300,
      shopTimer = 30, distractorTimer = 120, shopStarted = False,
      practiceTimer = 1 / 10, coins = 0, debugMode = True, difficulty = 1,
      mazesCompleted = 0, phaseMazes = 0, surveyDone = True,
      subjectId = ''s01'', shopChosen = False, winner = None, time = 0,
      trapTimer = 8, pendingRespawns = [], pendingShop = 0\<rparr>"

definition playing_start :: app where
  "playing_start = practice_end\<lparr>maze := Some maze13b, gameState := playing, practiceTimer := 0\<rparr>"

text \<open>
  A longer session, driven by the debug key (Ctrl+Shift+S sets the running timer to its
  last tick): phase 1 and phase 2 are played up to their shops; in the shop of phase 2
  the fixed-cost option is bought, which schedules the deferred change to distractor; the
  shop and the distractor are skipped, so phase 3 begins; then the deferred action fires.
\<close>

definition to_phase2_shop :: "event list" where
  "to_phase2_shop =
     practice_trace @
     [Tick rng1 yellow, DebugCoins, DebugSkip, Tick rng0 yellow,
      DebugSkip, Tick rng0 yellow, DebugSkip, Tick rng0 yellow,
      TutorialButton rng0, DebugSkip, Tick rng1 yellow, DebugSkip, Tick rng0 yellow]"

definition stale_shop_timer :: "event list" where
  "stale_shop_timer =
     [ShopBuy, DebugSkip, Tick rng0 yellow, DebugSkip, Tick rng0 yellow, ShopTimeout,
      Tick rng0 yellow]"

section \<open>Properties of the maze generator\<close>

subsection \<open>Grids\<close>

definition in_grid :: "int \<Rightarrow> int \<Rightarrow> int \<Rightarrow> int \<Rightarrow> bool" where
  "in_grid w h x y = (0 \<le> x \<and> x < w \<and> 0 \<le> y \<and> y < h)"

definition shape :: "int \<Rightarrow> int \<Rightarrow> 'a list list \<Rightarrow> bool" where
  "shape w h g = (length g = nat h \<and> (\<forall>row \<in> set g. length row = nat w))"

definition fair :: "rng \<Rightarrow> bool" where
  "fair rnd = ((\<forall>k. mset (shuffle rnd k directions) = mset directions) \<and>
               (\<forall>j. 0 \<le> draw rnd j \<and> draw rnd j < 1))"

text \<open>Cells reachable from \<open>s\<close> by steps to an edge-adjacent floor cell.\<close>

definition adjacent :: "Point \<Rightarrow> Point \<Rightarrow> bool" where
  "adjacent p q = (\<bar>fst p - fst q\<bar> + \<bar>snd p - snd q\<bar> = 1)"

inductive reach :: "maze_grid \<Rightarrow> Point \<Rightarrow> Point \<Rightarrow> bool" for g s where
  reach_start: "lookup g (fst s) (snd s) = Some 0 \<Longrightarrow> reach g s s"
| reach_step: "reach g s p \<Longrightarrow> adjacent p q \<Longrightarrow> lookup g (fst q) (snd q) = Some 0 \<Longrightarrow> reach g s q"

definition floor_connected :: "maze_grid \<Rightarrow> bool" where
  "floor_connected g = (\<forall>x y. lookup g x y = Some 0 \<longrightarrow> reach g (0, 0) (x, y))"

definition floors_kept :: "maze_grid \<Rightarrow> maze_grid \<Rightarrow> bool" where
  "floors_kept g g' = (\<forall>x y. lookup g x y = Some 0 \<longrightarrow> lookup g' x y = Some 0)"

definition binary :: "maze_grid \<Rightarrow> bool" where
  "binary g = (\<forall>x y v. lookup g x y = Some v \<longrightarrow> v = 0 \<or> v = 1)"

lemma lookup_shape: "shape w h g \<Longrightarrow> (lookup g x y \<noteq> None) = in_grid w h x y"
  by (auto simp: shape_def lookup_def in_grid_def)

lemma lookup_set_cell:
  assumes "shape w h g" "in_grid w h x y"
  shows "lookup (set_cell hole g x y v) x' y' = (if x' = x \<and> y' = y then Some v else lookup g x' y')"
proof -
  from assms have r: "0 \<le> x" "0 \<le> y" "nat y < length g" "nat x < length (g ! nat y)"
    by (auto simp: shape_def in_grid_def)
  have e: "nat a = nat b \<longleftrightarrow> a = b" if "0 \<le> a" "0 \<le> b" for a b :: int
    using that by auto
  show ?thesis
    using r e [of x' x] e [of y' y]
    by (auto simp: lookup_def set_cell_def row_set_def nth_list_update)
qed

lemma shape_set_cell:
  assumes "shape w h g" "in_grid w h x y"
  shows "shape w h (set_cell hole g x y v)"
proof -
  from assms have r: "0 \<le> x" "0 \<le> y" "nat y < length g" "nat x < length (g ! nat y)"
    by (auto simp: shape_def in_grid_def)
  show ?thesis
    using assms(1) r
    by (auto simp: shape_def set_cell_def row_set_def dest!: set_update_subset_insert [THEN subsetD])
qed

lemma floors_kept_refl: "floors_kept g g"
  by (simp add: floors_kept_def)

lemma floors_kept_trans: "floors_kept a b \<Longrightarrow> floors_kept b c \<Longrightarrow> floors_kept a c"
  by (simp add: floors_kept_def)

lemma floors_kept_set_cell:
  assumes "shape w h g" "in_grid w h x y"
  shows "floors_kept g (set_cell 2 g x y 0)"
  using lookup_set_cell [OF assms] by (simp add: floors_kept_def)

lemma binary_set_cell:
  assumes "shape w h g" "in_grid w h x y" "binary g"
  shows "binary (set_cell 2 g x y 0)"
  using lookup_set_cell [OF assms(1,2)] assms(3) by (auto simp: binary_def split: if_splits)

lemma reach_floors_kept:
  assumes "floors_kept g g'" "reach g s p"
  shows "reach g' s p"
  using assms(2)
proof induction
  case reach_start
  then show ?case using assms(1) by (auto simp: floors_kept_def intro: reach.reach_start)
next
  case (reach_step p q)
  then show ?case using assms(1) by (auto simp: floors_kept_def intro: reach.reach_step)
qed

lemma reach_is_floor: "reach g s p \<Longrightarrow> lookup g (fst p) (snd p) = Some 0"
  by (induction rule: reach.induct) auto

lemma connected_set_cell:
  assumes sh: "shape w h g" and c: "floor_connected g"
    and a: "lookup g ax ay = Some 0" and adj: "adjacent (ax, ay) (bx, by)"
    and b: "in_grid w h bx by"
  shows "floor_connected (set_cell 2 g bx by 0)"
  unfolding floor_connected_def
proof (intro allI impI)
  fix x y
  let ?g = "set_cell 2 g bx by 0"
  assume f: "lookup ?g x y = Some 0"
  have k: "floors_kept g ?g" by (rule floors_kept_set_cell [OF sh b])
  show "reach ?g (0, 0) (x, y)"
  proof (cases "x = bx \<and> y = by")
    case True
    have "reach g (0, 0) (ax, ay)" using c a by (simp add: floor_connected_def)
    then have "reach ?g (0, 0) (ax, ay)" by (rule reach_floors_kept [OF k])
    then have "reach ?g (0, 0) (bx, by)"
      using adj f True by (auto intro: reach.reach_step)
    then show ?thesis using True by simp
  next
    case False
    then have "lookup g x y = Some 0" using f lookup_set_cell [OF sh b, of 2 0 x y] by auto
    then have "reach g (0, 0) (x, y)" using c by (simp add: floor_connected_def)
    then show ?thesis by (rule reach_floors_kept [OF k])
  qed
qed

subsection \<open>The carve keeps the floor connected\<close>

definition good :: "int \<Rightarrow> int \<Rightarrow> maze_grid \<Rightarrow> bool" where
  "good w h g = (shape w h g \<and> binary g \<and> floor_connected g)"

definition dirs_ok :: "rng \<Rightarrow> bool" where
  "dirs_ok rnd = (\<forall>k. set (shuffle rnd k directions) \<subseteq> set directions)"

lemma fair_dirs_ok: "fair rnd \<Longrightarrow> dirs_ok rnd"
  unfolding fair_def dirs_ok_def by (metis set_mset_mset subset_refl)

lemma fair_dirs_all: "fair rnd \<Longrightarrow> set (shuffle rnd k directions) = set directions"
  unfolding fair_def by (metis set_mset_mset)

lemma dir_facts:
  assumes "(dx, dy) \<in> set directions" "in_grid w h x y" "in_grid w h (x + dx) (y + dy)"
  shows "in_grid w h (x + dx div 2) (y + dy div 2)"
    and "adjacent (x, y) (x + dx div 2, y + dy div 2)"
    and "adjacent (x + dx div 2, y + dy div 2) (x + dx, y + dy)"
  using assms by (auto simp: directions_def in_grid_def adjacent_def)

lemma good_carve_step:
  assumes g: "good w h g" and d: "(dx, dy) \<in> set directions"
    and p: "in_grid w h x y" "lookup g x y = Some 0" and n: "in_grid w h (x + dx) (y + dy)"
  shows "good w h (set_cell 2 (set_cell 2 g (x + dx div 2) (y + dy div 2) 0) (x + dx) (y + dy) 0)"
    and "floors_kept g (set_cell 2 (set_cell 2 g (x + dx div 2) (y + dy div 2) 0) (x + dx) (y + dy) 0)"
    and "lookup (set_cell 2 (set_cell 2 g (x + dx div 2) (y + dy div 2) 0) (x + dx) (y + dy) 0)
           (x + dx) (y + dy) = Some 0"
proof -
  let ?mx = "x + dx div 2" and ?my = "y + dy div 2"
  let ?g1 = "set_cell 2 g ?mx ?my 0"
  let ?g2 = "set_cell 2 ?g1 (x + dx) (y + dy) 0"
  note f = dir_facts [OF d p(1) n]
  from g have sh: "shape w h g" and bi: "binary g" and co: "floor_connected g"
    by (simp_all add: good_def)
  have sh1: "shape w h ?g1" by (rule shape_set_cell [OF sh f(1)])
  have bi1: "binary ?g1" by (rule binary_set_cell [OF sh f(1) bi])
  have co1: "floor_connected ?g1" by (rule connected_set_cell [OF sh co p(2) f(2) f(1)])
  have m1: "lookup ?g1 ?mx ?my = Some 0" using lookup_set_cell [OF sh f(1)] by simp
  have sh2: "shape w h ?g2" by (rule shape_set_cell [OF sh1 n])
  have bi2: "binary ?g2" by (rule binary_set_cell [OF sh1 n bi1])
  have co2: "floor_connected ?g2" by (rule connected_set_cell [OF sh1 co1 m1 f(3) n])
  show "good w h ?g2" using sh2 bi2 co2 by (simp add: good_def)
  show "floors_kept g ?g2"
    using floors_kept_set_cell [OF sh f(1)] floors_kept_set_cell [OF sh1 n]
    by (rule floors_kept_trans)
  show "lookup ?g2 (x + dx) (y + dy) = Some 0" using lookup_set_cell [OF sh1 n] by simp
qed

definition carved :: "int \<Rightarrow> int \<Rightarrow> maze_grid \<Rightarrow> int \<Rightarrow> int \<Rightarrow> (int \<times> int) list \<Rightarrow> maze_grid \<Rightarrow> bool" where
  "carved w h g x y ds g' =
     (good w h g' \<and> floors_kept g g' \<and>
      (\<forall>d \<in> set ds. in_grid w h (x + fst d) (y + snd d) \<longrightarrow>
         lookup g' (x + fst d) (y + snd d) = Some 0))"

lemma carve_good:
  "good w h g \<Longrightarrow> in_grid w h x y \<Longrightarrow> lookup g x y = Some 0 \<Longrightarrow>
   set ds \<subseteq> set directions \<Longrightarrow> dirs_ok rnd \<Longrightarrow>
   carved w h g x y ds (fst (carve rnd w h g x y ds k))"
proof (induction rnd w h g x y ds k rule: carve.induct)
  case (1 rnd w h g x y k)
  then show ?case by (simp add: carved_def floors_kept_refl)
next
  case (2 rnd w h g x y dx dy ds k)
  let ?nx = "x + dx" and ?ny = "y + dy"
  have d: "(dx, dy) \<in> set directions" and ds: "set ds \<subseteq> set directions"
    using "2.prems"(4) by auto
  show ?case
  proof (cases "0 \<le> ?nx \<and> ?nx < w \<and> 0 \<le> ?ny \<and> ?ny < h \<and> lookup g ?nx ?ny = Some 1")
    case True
    let ?g1 = "set_cell 2 g (x + dx div 2) (y + dy div 2) 0"
    let ?g2 = "set_cell 2 ?g1 ?nx ?ny 0"
    let ?r = "carve rnd w h ?g2 ?nx ?ny (shuffle rnd k directions) (Suc k)"
    from True have n: "in_grid w h ?nx ?ny" by (simp add: in_grid_def)
    note st = good_carve_step [OF "2.prems"(1) d "2.prems"(2,3) n]
    have sub: "set (shuffle rnd k directions) \<subseteq> set directions"
      using "2.prems"(5) by (simp add: dirs_ok_def)
    have c1: "carved w h ?g2 ?nx ?ny (shuffle rnd k directions) (fst ?r)"
      by (rule "2.IH"(1) [OF refl refl True refl st(1) n st(3) sub "2.prems"(5)])
    then have g1: "good w h (fst ?r)" and k1: "floors_kept ?g2 (fst ?r)"
      by (simp_all add: carved_def)
    have k01: "floors_kept g (fst ?r)" by (rule floors_kept_trans [OF st(2) k1])
    then have p: "lookup (fst ?r) x y = Some 0" using "2.prems"(3) by (simp add: floors_kept_def)
    have c2: "carved w h (fst ?r) x y ds (fst (carve rnd w h (fst ?r) x y ds (snd ?r)))"
      by (rule "2.IH"(2) [OF refl refl True refl refl g1 "2.prems"(2) p ds "2.prems"(5)])
    have e: "carve rnd w h g x y ((dx, dy) # ds) k = carve rnd w h (fst ?r) x y ds (snd ?r)"
      by (simp only: carve.simps Let_def if_P [OF True])
    have n0: "lookup (fst ?r) ?nx ?ny = Some 0" using k1 st(3) by (simp add: floors_kept_def)
    show ?thesis
      unfolding e using c2 k01 n0
      by (auto simp: carved_def floors_kept_def)
  next
    case False
    have e: "carve rnd w h g x y ((dx, dy) # ds) k = carve rnd w h g x y ds k"
      by (simp only: carve.simps Let_def if_not_P [OF False])
    have c: "carved w h g x y ds (fst (carve rnd w h g x y ds k))"
      by (rule "2.IH"(3) [OF refl refl False "2.prems"(1,2,3) ds "2.prems"(5)])
    have "lookup g ?nx ?ny = Some 0" if n: "in_grid w h ?nx ?ny"
    proof -
      from "2.prems"(1) have sh: "shape w h g" and bi: "binary g" by (simp_all add: good_def)
      from lookup_shape [OF sh, of ?nx ?ny] n obtain v where v: "lookup g ?nx ?ny = Some v" by auto
      with bi have "v = 0 \<or> v = 1" by (auto simp: binary_def)
      moreover have "v \<noteq> 1" using False n v by (auto simp: in_grid_def)
      ultimately show ?thesis using v by simp
    qed
    then show ?thesis
      unfolding e using c by (auto simp: carved_def floors_kept_def)
  qed
qed

lemma walls_only_good:
  assumes "1 \<le> w" "1 \<le> h"
  shows "good w h (set_cell 2 (replicate (nat h) (replicate (nat w) 1)) 0 0 0)"
    and "lookup (set_cell 2 (replicate (nat h) (replicate (nat w) (1::nat))) 0 0 0) 0 0 = Some 0"
proof -
  let ?g0 = "replicate (nat h) (replicate (nat w) (1::nat))"
  have sh: "shape w h ?g0" by (simp add: shape_def)
  have i: "in_grid w h 0 0" using assms by (simp add: in_grid_def)
  have l0: "lookup ?g0 x y = Some v \<Longrightarrow> v = 1" for x y v
    by (auto simp: lookup_def split: if_splits)
  note l = lookup_set_cell [OF sh i, of 2 0]
  show z: "lookup (set_cell 2 ?g0 0 0 0) 0 0 = Some 0" using l by simp
  have "binary (set_cell 2 ?g0 0 0 0)"
    unfolding binary_def using l l0 by (auto split: if_splits)
  moreover have "floor_connected (set_cell 2 ?g0 0 0 0)"
    unfolding floor_connected_def
  proof (intro allI impI)
    fix x y assume "lookup (set_cell 2 ?g0 0 0 0) x y = Some 0"
    then have "x = 0 \<and> y = 0" using l [of x y] l0 [of x y 0] by (auto split: if_splits)
    then show "reach (set_cell 2 ?g0 0 0 0) (0, 0) (x, y)" using z by (auto intro: reach.reach_start)
  qed
  ultimately show "good w h (set_cell 2 ?g0 0 0 0)"
    using shape_set_cell [OF sh i] by (simp add: good_def)
qed

lemma walk_good:
  assumes "dirs_ok rnd" "1 \<le> w" "1 \<le> h"
  shows "carved w h (set_cell 2 (replicate (nat h) (replicate (nat w) 1)) 0 0 0) 0 0
           (shuffle rnd 0 directions)
           (fst (walk rnd w h (replicate (nat h) (replicate (nat w) 1)) 0 0 0))"
  unfolding walk_def
  using carve_good [OF walls_only_good(1) [OF assms(2,3)] _ walls_only_good(2) [OF assms(2,3)] _ assms(1)]
    assms by (simp add: in_grid_def dirs_ok_def)

subsection \<open>The breadth-first search returns\<close>

definition Vset :: "bool list list \<Rightarrow> Point set" where
  "Vset vis = {c. lookup vis (fst c) (snd c) = Some True}"

definition box :: "int \<Rightarrow> int \<Rightarrow> Point set" where
  "box w h = {0..<w} \<times> {0..<h}"

definition parent_rel :: "(Point \<rightharpoonup> Point) \<Rightarrow> (Point \<times> Point) set" where
  "parent_rel par = {(p, c). par c = Some p}"

definition bfs_measure :: "int \<Rightarrow> int \<Rightarrow> bfs_state \<Rightarrow> nat" where
  "bfs_measure w h st = (case st of (vis, par, q) \<Rightarrow> 2 * card (box w h - Vset vis) + length q)"

definition bfs_inv :: "int \<Rightarrow> bfs_state \<Rightarrow> bool" where
  "bfs_inv h st =
     (case st of (vis, par, q) \<Rightarrow>
        length vis = nat h \<and> set q \<subseteq> Vset vis \<and> dom par \<subseteq> Vset vis \<and> ran par \<subseteq> Vset vis \<and>
        wf (parent_rel par) \<and> (\<forall>c \<in> Vset vis. c \<noteq> (0, 0) \<longrightarrow> c \<in> dom par))"

lemma row_set_nth_True:
  "(i < length (row_set False row n True) \<and> row_set False row n True ! i) =
   (i = n \<or> (i < length row \<and> row ! i))"
proof (cases "n < length row")
  case True
  then show ?thesis by (auto simp: row_set_def nth_list_update)
next
  case False
  then have l: "length row \<le> n" by simp
  have r: "row_set False row n True = row @ replicate (n - length row) False @ [True]"
    using False by (simp add: row_set_def)
  show ?thesis
  proof (cases "i < length row")
    case True
    then show ?thesis using l by (simp add: r nth_append)
  next
    case False
    then have "(row @ replicate (n - length row) False @ [True]) ! i =
               (replicate (n - length row) False @ [True]) ! (i - length row)"
      by (simp add: nth_append)
    moreover have "(i - length row < n - length row) = (i < n)" using False l by auto
    moreover have "(i - length row = n - length row) = (i = n)" using False l by auto
    ultimately show ?thesis
      using False l unfolding r
      by (cases "i < n") (auto simp: nth_append less_Suc_eq not_less)
  qed
qed

lemma lookup_True:
  "(lookup g x y = Some True) =
   (0 \<le> y \<and> nat y < length g \<and> 0 \<le> x \<and> nat x < length (g ! nat y) \<and> g ! nat y ! nat x)"
  by (auto simp: lookup_def)

lemma lookup_mark:
  assumes "0 \<le> nx" "0 \<le> ny" "nat ny < length vis"
  shows "(lookup (set_cell False vis nx ny True) x y = Some True) =
         ((x = nx \<and> y = ny) \<or> lookup vis x y = Some True)"
proof -
  let ?vis = "vis[nat ny := row_set False (vis ! nat ny) (nat nx) True]"
  have s: "set_cell False vis nx ny True = ?vis" using assms by (simp add: set_cell_def)
  show ?thesis
  proof (cases "0 \<le> y \<and> nat y < length vis")
    case False
    then show ?thesis using assms unfolding s lookup_True by auto
  next
    case True
    show ?thesis
    proof (cases "y = ny")
      case False
      then have "nat y \<noteq> nat ny" using True assms by auto
      then show ?thesis using False unfolding s lookup_True by simp
    next
      case yn: True
      have ex: "(nat x = nat nx) = (x = nx)" if "0 \<le> x" using that assms by auto
      have "(lookup ?vis x y = Some True) =
            (0 \<le> x \<and> (nat x < length (row_set False (vis ! nat ny) (nat nx) True) \<and>
               row_set False (vis ! nat ny) (nat nx) True ! nat x))"
        using True assms unfolding lookup_True yn by simp
      also have "\<dots> = (0 \<le> x \<and> (nat x = nat nx \<or> (nat x < length (vis ! nat ny) \<and> vis ! nat ny ! nat x)))"
        by (simp only: row_set_nth_True)
      also have "\<dots> = ((x = nx \<and> y = ny) \<or> lookup vis x y = Some True)"
        using True assms ex unfolding lookup_True yn by auto
      finally show ?thesis unfolding s .
    qed
  qed
qed

lemma Vset_mark:
  assumes "0 \<le> nx" "0 \<le> ny" "nat ny < length vis"
  shows "Vset (set_cell False vis nx ny True) = insert (nx, ny) (Vset vis)"
  unfolding Vset_def using lookup_mark [OF assms] by auto

lemma length_set_cell: "length (set_cell hole g x y v) = length g"
  by (simp add: set_cell_def)

lemma finite_box: "finite (box w h)"
  by (simp add: box_def)

lemma wf_parent_add:
  assumes w: "wf (parent_rel par)" and d: "dom par \<subseteq> V" and r: "ran par \<subseteq> V"
    and n: "n \<notin> V" and c: "c \<in> V"
  shows "wf (parent_rel (par(n \<mapsto> c)))"
proof -
  have pn: "par n = None" using d n by auto
  have eq: "parent_rel (par(n \<mapsto> c)) = insert (c, n) (parent_rel par)"
    using pn by (auto simp: parent_rel_def split: if_splits)
  have "(n, c) \<notin> (parent_rel par)\<^sup>*"
  proof
    assume "(n, c) \<in> (parent_rel par)\<^sup>*"
    then show False
    proof (cases rule: converse_rtranclE)
      case base
      then show ?thesis using n c by simp
    next
      case (step z)
      then have "par z = Some n" by (simp add: parent_rel_def)
      then have "n \<in> ran par" by (rule ranI)
      then show ?thesis using r n by auto
    qed
  qed
  then show ?thesis unfolding eq using w by (simp add: wf_insert)
qed

lemma visit_inv:
  assumes i: "bfs_inv h st" and c: "cur \<in> Vset (fst st)"
  shows "bfs_inv h (visit w h g cur st d) \<and> cur \<in> Vset (fst (visit w h g cur st d)) \<and>
         bfs_measure w h (visit w h g cur st d) \<le> bfs_measure w h st"
proof -
  obtain vis par q where st: "st = (vis, par, q)" by (cases st)
  let ?nx = "fst cur + fst d" and ?ny = "snd cur + snd d"
  show ?thesis
  proof (cases "0 \<le> ?nx \<and> ?nx < w \<and> 0 \<le> ?ny \<and> ?ny < h \<and> lookup g ?nx ?ny = Some 0
                  \<and> lookup vis ?nx ?ny \<noteq> Some True")
    case False
    then have "visit w h g cur st d = st" by (auto simp: visit_def st Let_def)
    then show ?thesis using i c by simp
  next
    case True
    let ?vis = "set_cell False vis ?nx ?ny True"
    have v: "visit w h g cur st d = (?vis, par((?nx, ?ny) \<mapsto> cur), q @ [(?nx, ?ny)])"
      using True by (simp add: visit_def st Let_def)
    from i have len: "length vis = nat h" and qs: "set q \<subseteq> Vset vis"
      and dm: "dom par \<subseteq> Vset vis" and rn: "ran par \<subseteq> Vset vis"
      and wf: "wf (parent_rel par)"
      and pr: "\<forall>c \<in> Vset vis. c \<noteq> (0, 0) \<longrightarrow> c \<in> dom par"
      by (simp_all add: bfs_inv_def st)
    have rng: "0 \<le> ?nx" "0 \<le> ?ny" "nat ?ny < length vis" using True len by auto
    have V: "Vset ?vis = insert (?nx, ?ny) (Vset vis)" by (rule Vset_mark [OF rng])
    have nV: "(?nx, ?ny) \<notin> Vset vis" using True by (simp add: Vset_def)
    have cV: "cur \<in> Vset vis" using c by (simp add: st)
    have nb: "(?nx, ?ny) \<in> box w h" using True by (simp add: box_def)
    have wf': "wf (parent_rel (par((?nx, ?ny) \<mapsto> cur)))"
      by (rule wf_parent_add [OF wf dm rn nV cV])
    have "ran (par((?nx, ?ny) \<mapsto> cur)) \<subseteq> insert cur (ran par)"
      by (auto simp: ran_def split: if_splits)
    then have rn': "ran (par((?nx, ?ny) \<mapsto> cur)) \<subseteq> insert (?nx, ?ny) (Vset vis)"
      using rn cV by blast
    have inv: "bfs_inv h (?vis, par((?nx, ?ny) \<mapsto> cur), q @ [(?nx, ?ny)])"
      unfolding bfs_inv_def prod.case V
      using len qs dm rn' wf' pr by (auto simp: length_set_cell)
    have eq: "box w h - insert (?nx, ?ny) (Vset vis) = (box w h - Vset vis) - {(?nx, ?ny)}" by auto
    have fin: "finite (box w h - Vset vis)" using finite_box [of w h] by simp
    have mem: "(?nx, ?ny) \<in> box w h - Vset vis" using nb nV by simp
    have "card ((box w h - Vset vis) - {(?nx, ?ny)}) < card (box w h - Vset vis)"
      by (rule card_Diff1_less [OF fin mem])
    then have "card (box w h - insert (?nx, ?ny) (Vset vis)) < card (box w h - Vset vis)"
      by (simp only: eq)
    then have m: "bfs_measure w h (?vis, par((?nx, ?ny) \<mapsto> cur), q @ [(?nx, ?ny)])
                 \<le> bfs_measure w h (vis, par, q)"
      by (simp add: bfs_measure_def V)
    have "bfs_inv h (visit w h g cur st d)" unfolding v by (rule inv)
    moreover have "cur \<in> Vset (fst (visit w h g cur st d))"
      unfolding v fst_conv V using cV by simp
    moreover have "bfs_measure w h (visit w h g cur st d) \<le> bfs_measure w h st"
      unfolding v using m by (simp only: st)
    ultimately show ?thesis by simp
  qed
qed

lemma visit_all_inv:
  "bfs_inv h st \<Longrightarrow> cur \<in> Vset (fst st) \<Longrightarrow>
   bfs_inv h (foldl (visit w h g cur) st ds) \<and>
   bfs_measure w h (foldl (visit w h g cur) st ds) \<le> bfs_measure w h st"
proof (induction ds arbitrary: st)
  case Nil
  then show ?case by simp
next
  case (Cons d ds)
  from visit_inv [OF Cons.prems, of w g d]
  have a: "bfs_inv h (visit w h g cur st d)" "cur \<in> Vset (fst (visit w h g cur st d))"
    "bfs_measure w h (visit w h g cur st d) \<le> bfs_measure w h st" by simp_all
  from Cons.IH [OF a(1,2)] a(3) show ?case by simp
qed

lemma bfs_returns:
  "bfs_inv h st \<Longrightarrow> \<exists>r. bfs w h g e st = Some r \<and> bfs_inv h r"
proof (induction "bfs_measure w h st" arbitrary: st rule: less_induct)
  case less
  obtain vis par q where st: "st = (vis, par, q)" by (cases st)
  show ?case
  proof (cases q)
    case Nil
    then have "bfs w h g e st = Some st" by (subst bfs.simps) (simp add: st)
    then show ?thesis using less.prems by simp
  next
    case (Cons cur rest)
    show ?thesis
    proof (cases "cur = e")
      case True
      then have "bfs w h g e st = Some (vis, par, rest)"
        by (subst bfs.simps) (simp add: st Cons)
      moreover have "bfs_inv h (vis, par, rest)"
        using less.prems by (auto simp: bfs_inv_def st Cons)
      ultimately show ?thesis by simp
    next
      case False
      let ?st = "foldl (visit w h g cur) (vis, par, rest) bfs_dirs"
      have e: "bfs w h g e st = bfs w h g e ?st"
        by (subst bfs.simps) (simp add: st Cons False)
      have i0: "bfs_inv h (vis, par, rest)" and c0: "cur \<in> Vset (fst (vis, par, rest))"
        using less.prems by (auto simp: bfs_inv_def st Cons)
      from visit_all_inv [OF i0 c0, of w g bfs_dirs]
      have i1: "bfs_inv h ?st" and m1: "bfs_measure w h ?st \<le> bfs_measure w h (vis, par, rest)"
        by simp_all
      have "bfs_measure w h (vis, par, rest) < bfs_measure w h st"
        by (simp add: bfs_measure_def st Cons)
      with m1 have "bfs_measure w h ?st < bfs_measure w h st" by simp
      from less.hyps [OF this i1] show ?thesis by (simp add: e)
    qed
  qed
qed

lemma visited0_inv:
  assumes "1 \<le> h"
  shows "bfs_inv h (visited0 w h, Map.empty, [(0, 0)])"
proof -
  have n: "nat 0 < length (replicate (nat h) (replicate (nat w) False))" using assms by simp
  have "Vset (replicate (nat h) (replicate (nat w) False)) = {}"
    by (auto simp: Vset_def lookup_def)
  then have V: "Vset (visited0 w h) = {(0, 0)}"
    unfolding visited0_def using Vset_mark [OF _ _ n, of 0] by simp
  show ?thesis
    unfolding bfs_inv_def prod.case V
    using assms by (simp add: visited0_def length_set_cell parent_rel_def)
qed

subsection \<open>The walk back along the parent pointers returns\<close>

lemma trace_back_returns:
  assumes w: "wf (parent_rel par)"
  shows "\<exists>r. trace_back par c acc = Some (acc @ c # r) \<and> c \<notin> set r \<and> distinct r \<and>
              (\<forall>x \<in> set r. (x, c) \<in> (parent_rel par)\<^sup>+) \<and>
              par (last (c # r)) = None \<and> (r \<noteq> [] \<longrightarrow> last r \<in> ran par)"
  using w
proof (induction c arbitrary: acc rule: wf_induct_rule)
  case (less c)
  show ?case
  proof (cases "par c")
    case None
    then have "trace_back par c acc = Some (acc @ [c])" by (subst trace_back.simps) simp
    then show ?thesis using None by simp
  next
    case (Some p)
    then have pc: "(p, c) \<in> parent_rel par" by (simp add: parent_rel_def)
    from less.IH [OF pc, of "acc @ [c]"] obtain r where
      r: "trace_back par p (acc @ [c]) = Some ((acc @ [c]) @ p # r)" "p \<notin> set r" "distinct r"
         "\<forall>x \<in> set r. (x, p) \<in> (parent_rel par)\<^sup>+" "par (last (p # r)) = None"
         "r \<noteq> [] \<longrightarrow> last r \<in> ran par"
      by blast
    have t: "trace_back par c acc = Some (acc @ c # p # r)"
      using r(1) Some by (subst trace_back.simps) simp
    have anc: "\<forall>x \<in> set (p # r). (x, c) \<in> (parent_rel par)\<^sup>+"
      using pc r(4) by (auto intro: trancl_into_trancl)
    have irr: "(c, c) \<notin> (parent_rel par)\<^sup>+"
      using wf_trancl [OF w] by (meson wf_not_refl)
    have cn: "c \<notin> set (p # r)" using anc irr by blast
    have "p \<in> ran par" using Some by (rule ranI)
    then have lst: "last (p # r) \<in> ran par"
      using r(6) by (cases r) simp_all
    show ?thesis
      using t cn r(2,3,5) anc lst by (intro exI [of _ "p # r"]) simp
  qed
qed

lemma find_path_returns:
  assumes "1 \<le> h"
  shows "\<exists>path. find_path w h g e = Some path \<and> path \<noteq> [] \<and> last path = e \<and> distinct path \<and>
           (2 \<le> length path \<longrightarrow> hd path = (0, 0))"
proof -
  from bfs_returns [OF visited0_inv [OF assms], of w g e] obtain vis par q where
    b: "bfs w h g e (visited0 w h, Map.empty, [(0, 0)]) = Some (vis, par, q)"
    and i: "bfs_inv h (vis, par, q)"
    by (metis prod_cases3)
  from i have wf: "wf (parent_rel par)" and rn: "ran par \<subseteq> Vset vis"
    and pr: "\<forall>c \<in> Vset vis. c \<noteq> (0, 0) \<longrightarrow> c \<in> dom par"
    by (simp_all add: bfs_inv_def)
  from trace_back_returns [OF wf, of e "[]"] obtain r where
    r: "trace_back par e [] = Some (e # r)" "e \<notin> set r" "distinct r"
       "par (last (e # r)) = None" "r \<noteq> [] \<longrightarrow> last r \<in> ran par"
    by auto
  have p: "find_path w h g e = Some (rev (e # r))"
    by (simp add: find_path_def b r(1))
  have h: "hd (rev (e # r)) = (0, 0)" if "2 \<le> length (rev (e # r))"
  proof -
    from that have ne: "r \<noteq> []" by (cases r) auto
    then have "last r \<in> Vset vis" using r(5) rn by auto
    moreover have "last r \<notin> dom par" using r(4) ne by auto
    ultimately have "last r = (0, 0)" using pr by blast
    then show ?thesis using ne by (simp add: hd_rev)
  qed
  show ?thesis
    using p r(2,3) h by (intro exI [of _ "rev (e # r)"]) (simp del: rev.simps add: last_rev)
qed

subsection \<open>generateMaze returns\<close>

lemma gen_returns:
  assumes "1 \<le> h"
  shows "\<exists>path. find_path w h (fst (walk rnd w h (replicate (nat h) (replicate (nat w) 1)) 0 0 0))
                  (find_end w h (fst (walk rnd w h (replicate (nat h) (replicate (nat w) 1)) 0 0 0)))
                = Some path \<and> path \<noteq> [] \<and>
          gen w h d rnd =
            Some (Inr \<lparr>grid = fst (walk rnd w h (replicate (nat h) (replicate (nat w) 1)) 0 0 0),
                       width = w, height = h, start = (0, 0),
                       endp = find_end w h (fst (walk rnd w h (replicate (nat h) (replicate (nat w) 1)) 0 0 0)),
                       traps = fst (trap_loop rnd w h
                                 (fst (walk rnd w h (replicate (nat h) (replicate (nat w) 1)) 0 0 0))
                                 (find_end w h (fst (walk rnd w h (replicate (nat h) (replicate (nat w) 1)) 0 0 0)))
                                 (trapCount_of w h d) [] 0 0),
                       safeZones = path_zones path (safeZoneCount d)\<rparr>)"
proof -
  let ?g = "fst (walk rnd w h (replicate (nat h) (replicate (nat w) 1)) 0 0 0)"
  from find_path_returns [OF assms, of w ?g "find_end w h ?g"] obtain path where
    p: "find_path w h ?g (find_end w h ?g) = Some path" "path \<noteq> []" by blast
  show ?thesis
    using p by (intro exI [of _ path]) (simp add: gen_def Let_def)
qed


lemma generateMaze_maze:
  assumes "1 \<le> h" "0 \<le> w"
  shows "\<exists>m. generateMaze w h d rnd = Some (Inr m) \<and> width m = w \<and> height m = h \<and> start m = (0, 0)"
  using assms gen_returns [of h w rnd d] by (auto simp: generateMaze_def)

lemma trap_loop_unfold:
  "int (length trs) < n \<and> attempts < 100 \<Longrightarrow>
   trap_loop rnd w h g e n trs attempts j =
   trap_loop rnd w h g e n (try_trap rnd w h g e trs j) (attempts + 1) (j + 2)"
  "\<not> (int (length trs) < n \<and> attempts < 100) \<Longrightarrow>
   trap_loop rnd w h g e n trs attempts j = (trs, attempts, j)"
  by (subst trap_loop.simps, simp only: if_P if_not_P if_True if_False)+


lemma try_trap_avoids:
  assumes "\<forall>t \<in> set trs. (t_x t, t_y t) \<noteq> (0, 0) \<and> (t_x t, t_y t) \<noteq> e"
  shows "\<forall>t \<in> set (try_trap rnd w h g e trs j). (t_x t, t_y t) \<noteq> (0, 0) \<and> (t_x t, t_y t) \<noteq> e"
  using assms by (cases e) (auto simp: try_trap_def Let_def)

lemma trap_loop_avoids:
  "\<forall>t \<in> set trs. (t_x t, t_y t) \<noteq> (0, 0) \<and> (t_x t, t_y t) \<noteq> e \<Longrightarrow>
   \<forall>t \<in> set (fst (trap_loop rnd w h g e n trs attempts j)).
      (t_x t, t_y t) \<noteq> (0, 0) \<and> (t_x t, t_y t) \<noteq> e"
proof (induction rnd w h g e n trs attempts j rule: trap_loop.induct)
  case (1 rnd w h g e n trs attempts j)
  show ?case
  proof (cases "int (length trs) < n \<and> attempts < 100")
    case True
    from "1.IH" [OF True try_trap_avoids [OF "1.prems"]] show ?thesis
      by (simp only: trap_loop_unfold(1) [OF True])
  next
    case False
    then show ?thesis using "1.prems" by (simp only: trap_loop_unfold(2) [OF False] fst_conv)
  qed
qed

lemma carve_walls_le: "walls (fst (carve rnd w h g x y ds k)) \<le> walls g"
proof (induction rnd w h g x y ds k rule: carve.induct)
  case (1 rnd w h g x y k)
  then show ?case by simp
next
  case (2 rnd w h g x y dx dy ds k)
  let ?nx = "x + dx" and ?ny = "y + dy"
  show ?case
  proof (cases "0 \<le> ?nx \<and> ?nx < w \<and> 0 \<le> ?ny \<and> ?ny < h \<and> lookup g ?nx ?ny = Some 1")
    case True
    let ?g1 = "set_cell 2 g (x + dx div 2) (y + dy div 2) 0"
    let ?r = "carve rnd w h (set_cell 2 ?g1 ?nx ?ny 0) ?nx ?ny (shuffle rnd k directions) (Suc k)"
    have a: "walls (fst ?r) \<le> walls (set_cell 2 ?g1 ?nx ?ny 0)"
      using "2.IH"(1) [OF refl refl True refl] .
    have b: "walls (fst (carve rnd w h (fst ?r) x y ds (snd ?r))) \<le> walls (fst ?r)"
      using "2.IH"(2) [OF refl refl True refl refl] .
    have c: "walls (set_cell 2 ?g1 ?nx ?ny 0) < walls g"
      using True by (intro walls_carve_step) simp
    have "carve rnd w h g x y ((dx, dy) # ds) k = carve rnd w h (fst ?r) x y ds (snd ?r)"
      by (simp only: carve.simps Let_def if_P [OF True])
    then show ?thesis using a b c by simp
  next
    case False
    have "carve rnd w h g x y ((dx, dy) # ds) k = carve rnd w h g x y ds k"
      by (simp only: carve.simps Let_def if_not_P [OF False])
    then show ?thesis using "2.IH"(3) [OF refl refl False] by simp
  qed
qed



lemma fair_rng0: "fair rng0"
  unfolding fair_def rng0_def
proof (intro conjI allI)
  fix j :: nat
  have "(j * 7) mod 16 < 16" by simp
  then have "(of_nat ((j * 7) mod 16) :: rat) < 16" by (metis of_nat_less_iff of_nat_numeral)
  then show "draw \<lparr>shuffle = \<lambda>k ds. if even k then ds else rev ds,
                   draw = \<lambda>j. rat_of_nat (j * 7 mod 16) / 16\<rparr> j < 1"
    by simp
qed simp_all


definition maze3 :: MazeData where
  "maze3 = \<lparr>grid = [[0, 1, 0], [0, 1, 0], [0, 0, 0]], width = 3, height = 3,
     start = (0, 0), endp = (2, 2), traps = [],
     safeZones = [(0, 1), (0, 2), (1, 2), (2, 2)]\<rparr>"

lemma generateMaze_3x3: "generateMaze 3 3 1 rng0 = Some (Inr maze3)"
  by code_simp

lemma generateMaze_grid:
  assumes "generateMaze w h d rnd = Some (Inr m)"
  shows "1 \<le> h \<and> 0 \<le> w \<and> width m = w \<and> height m = h \<and> start m = (0, 0) \<and>
         grid m = fst (walk rnd w h (replicate (nat h) (replicate (nat w) 1)) 0 0 0) \<and>
         endp m = find_end w h (grid m) \<and>
         traps m = fst (trap_loop rnd w h (grid m) (endp m) (trapCount_of w h d) [] 0 0) \<and>
         (\<exists>path. find_path w h (grid m) (endp m) = Some path \<and>
                  safeZones m = path_zones path (safeZoneCount d))"
proof -
  from assms have h: "1 \<le> h" and w: "0 \<le> w" and g: "gen w h d rnd = Some (Inr m)"
    by (auto simp: generateMaze_def split: if_splits)
  from gen_returns [OF h, of w rnd d] g show ?thesis using h w by auto
qed

text \<open>
  C2. In every maze that generateMaze returns for width and height at least 2 and a
  non-negative difficulty (the shuffles being permutations of the four directions), the
  cells reachable from the start cell by 4-directional steps over floor cells are exactly
  the floor cells of the grid.
\<close>

theorem generated_maze_connected:
  assumes "generateMaze w h d rnd = Some (Inr m)" and "2 \<le> w" and "2 \<le> h" and "0 \<le> d"
    and "fair rnd"
  shows "reach (grid m) (start m) (x, y) = floor_at m (x, y)"
proof -
  note f = generateMaze_grid [OF assms(1)]
  from walk_good [OF fair_dirs_ok [OF assms(5)], of w h] assms(2,3) f
  have "good w h (grid m)" by (simp add: carved_def)
  then have c: "floor_connected (grid m)" by (simp add: good_def)
  show ?thesis
  proof
    assume "reach (grid m) (start m) (x, y)"
    from reach_is_floor [OF this] show "floor_at m (x, y)" by (simp add: floor_at_def)
  next
    assume "floor_at m (x, y)"
    then show "reach (grid m) (start m) (x, y)"
      using c f by (simp add: floor_at_def floor_connected_def)
  qed
qed

theorem generated_maze_connected_witness:
  "generateMaze 3 3 1 rng0 = Some (Inr maze3) \<and> (2::int) \<le> 3 \<and> (0::rat) \<le> 1 \<and> fair rng0 \<and>
   floor_at maze3 (2, 2) \<and> reach (grid maze3) (start maze3) (2, 2) \<and>
   \<not> floor_at maze3 (1, 1) \<and> \<not> reach (grid maze3) (start maze3) (1, 1)"
proof -
  have a: "floor_at maze3 (2, 2)" "\<not> floor_at maze3 (1, 1)" by code_simp+
  have b: "(2::int) \<le> 3" "(0::rat) \<le> 1" by simp_all
  note t = generated_maze_connected [OF generateMaze_3x3 b(1) b(1) b(2) fair_rng0]
  from t [of 2 2] t [of 1 1] a generateMaze_3x3 fair_rng0 show ?thesis by simp
qed

subsection \<open>The carve opens every cell with even coordinates\<close>

definition opened :: "int \<Rightarrow> int \<Rightarrow> maze_grid \<Rightarrow> Point \<Rightarrow> bool" where
  "opened w h g c =
     (\<forall>d \<in> set directions. in_grid w h (fst c + fst d) (snd c + snd d) \<longrightarrow>
        lookup g (fst c + fst d) (snd c + snd d) = Some 0)"

definition settled :: "int \<Rightarrow> int \<Rightarrow> maze_grid \<Rightarrow> maze_grid \<Rightarrow> bool" where
  "settled w h g g' =
     (\<forall>x y. even x \<and> even y \<and> lookup g' x y = Some 0 \<and> lookup g x y \<noteq> Some 0 \<longrightarrow>
        opened w h g' (x, y))"

lemma opened_kept: "floors_kept g g' \<Longrightarrow> opened w h g c \<Longrightarrow> opened w h g' c"
  by (simp add: floors_kept_def opened_def)

lemma carved_opened:
  assumes "carved w h g x y ds g'" "set ds = set directions"
  shows "opened w h g' (x, y)"
  using assms by (simp add: carved_def opened_def)

lemma middle_odd:
  assumes "(dx, dy) \<in> set directions" "even x" "even y"
  shows "\<not> (even (x + dx div 2) \<and> even (y + dy div 2))" and "even (x + dx)" and "even (y + dy)"
  using assms by (auto simp: directions_def)

lemma carve_settled:
  "good w h g \<Longrightarrow> in_grid w h x y \<Longrightarrow> lookup g x y = Some 0 \<Longrightarrow>
   set ds \<subseteq> set directions \<Longrightarrow> fair rnd \<Longrightarrow> even x \<Longrightarrow> even y \<Longrightarrow>
   settled w h g (fst (carve rnd w h g x y ds k))"
proof (induction rnd w h g x y ds k rule: carve.induct)
  case (1 rnd w h g x y k)
  then show ?case by (simp add: settled_def)
next
  case (2 rnd w h g x y dx dy ds k)
  let ?nx = "x + dx" and ?ny = "y + dy"
  let ?mx = "x + dx div 2" and ?my = "y + dy div 2"
  have d: "(dx, dy) \<in> set directions" and ds: "set ds \<subseteq> set directions"
    using "2.prems"(4) by auto
  note fr = "2.prems"(5)
  note ok = fair_dirs_ok [OF fr]
  note par = middle_odd [OF d "2.prems"(6,7)]
  show ?case
  proof (cases "0 \<le> ?nx \<and> ?nx < w \<and> 0 \<le> ?ny \<and> ?ny < h \<and> lookup g ?nx ?ny = Some 1")
    case True
    let ?g1 = "set_cell 2 g ?mx ?my 0"
    let ?g2 = "set_cell 2 ?g1 ?nx ?ny 0"
    let ?r = "carve rnd w h ?g2 ?nx ?ny (shuffle rnd k directions) (Suc k)"
    let ?f = "fst (carve rnd w h (fst ?r) x y ds (snd ?r))"
    from True have n: "in_grid w h ?nx ?ny" by (simp add: in_grid_def)
    note st = good_carve_step [OF "2.prems"(1) d "2.prems"(2,3) n]
    note m = dir_facts(1) [OF d "2.prems"(2) n]
    have all: "set (shuffle rnd k directions) = set directions" by (rule fair_dirs_all [OF fr])
    then have sub: "set (shuffle rnd k directions) \<subseteq> set directions" by simp
    have c1: "carved w h ?g2 ?nx ?ny (shuffle rnd k directions) (fst ?r)"
      by (rule carve_good [OF st(1) n st(3) sub ok])
    have s1: "settled w h ?g2 (fst ?r)"
      by (rule "2.IH"(1) [OF refl refl True refl st(1) n st(3) sub fr par(2,3)])
    from c1 have g1: "good w h (fst ?r)" and k1: "floors_kept ?g2 (fst ?r)"
      by (simp_all add: carved_def)
    have k01: "floors_kept g (fst ?r)" by (rule floors_kept_trans [OF st(2) k1])
    then have p: "lookup (fst ?r) x y = Some 0" using "2.prems"(3) by (simp add: floors_kept_def)
    have c2: "carved w h (fst ?r) x y ds ?f"
      by (rule carve_good [OF g1 "2.prems"(2) p ds ok])
    then have k2: "floors_kept (fst ?r) ?f" by (simp add: carved_def)
    have s2: "settled w h (fst ?r) ?f"
      by (rule "2.IH"(2) [OF refl refl True refl refl g1 "2.prems"(2) p ds fr "2.prems"(6,7)])
    have on: "opened w h (fst ?r) (?nx, ?ny)" by (rule carved_opened [OF c1 all])
    have e: "carve rnd w h g x y ((dx, dy) # ds) k = carve rnd w h (fst ?r) x y ds (snd ?r)"
      by (simp only: carve.simps Let_def if_P [OF True])
    from "2.prems"(1) have sh: "shape w h g" by (simp add: good_def)
    have sh1: "shape w h ?g1" by (rule shape_set_cell [OF sh m])
    have l2: "lookup ?g2 cx cy =
                (if cx = ?nx \<and> cy = ?ny then Some 0
                 else if cx = ?mx \<and> cy = ?my then Some 0 else lookup g cx cy)" for cx cy
      by (simp only: lookup_set_cell [OF sh1 n] lookup_set_cell [OF sh m])
    have "opened w h ?f (cx, cy)"
      if c: "even cx" "even cy" "lookup ?f cx cy = Some 0" "lookup g cx cy \<noteq> Some 0" for cx cy
    proof (cases "lookup (fst ?r) cx cy = Some 0")
      case False
      then show ?thesis using s2 c by (simp add: settled_def)
    next
      case in_r: True
      show ?thesis
      proof (cases "lookup ?g2 cx cy = Some 0")
        case False
        then have "opened w h (fst ?r) (cx, cy)" using s1 c in_r by (simp add: settled_def)
        then show ?thesis by (rule opened_kept [OF k2])
      next
        case True
        then have "(cx = ?nx \<and> cy = ?ny) \<or> (cx = ?mx \<and> cy = ?my)"
          using c(4) by (simp only: l2 split: if_splits) simp_all
        then have "cx = ?nx \<and> cy = ?ny" using par(1) c(1,2) by blast
        then show ?thesis using opened_kept [OF k2 on] by simp
      qed
    qed
    then show ?thesis unfolding e by (simp add: settled_def)
  next
    case False
    have e: "carve rnd w h g x y ((dx, dy) # ds) k = carve rnd w h g x y ds k"
      by (simp only: carve.simps Let_def if_not_P [OF False])
    show ?thesis
      unfolding e
      by (rule "2.IH"(3) [OF refl refl False "2.prems"(1,2,3) ds fr "2.prems"(6,7)])
  qed
qed

lemma walk_settled:
  assumes fr: "fair rnd" and w: "1 \<le> w" and h: "1 \<le> h"
    and c: "even x" "even y"
       "lookup (fst (walk rnd w h (replicate (nat h) (replicate (nat w) 1)) 0 0 0)) x y = Some 0"
  shows "opened w h (fst (walk rnd w h (replicate (nat h) (replicate (nat w) 1)) 0 0 0)) (x, y)"
proof -
  let ?g0 = "replicate (nat h) (replicate (nat w) (1::nat))"
  let ?g1 = "set_cell 2 ?g0 0 0 0"
  let ?f = "fst (walk rnd w h ?g0 0 0 0)"
  have sh: "shape w h ?g0" by (simp add: shape_def)
  have i: "in_grid w h 0 0" using w h by (simp add: in_grid_def)
  have l0: "lookup ?g0 a b \<noteq> Some 0" for a b
    by (auto simp: lookup_def split: if_splits)
  have all: "set (shuffle rnd 0 directions) = set directions" by (rule fair_dirs_all [OF fr])
  note cv = walk_good [OF fair_dirs_ok [OF fr] w h]
  have s: "settled w h ?g1 ?f"
    unfolding walk_def
    using carve_settled [OF walls_only_good(1) [OF w h] i walls_only_good(2) [OF w h] _ fr, of
        "shuffle rnd 0 directions" "Suc 0"] all
    by simp
  show ?thesis
  proof (cases "lookup ?g1 x y = Some 0")
    case True
    have "lookup ?g1 x y = (if x = 0 \<and> y = 0 then Some 0 else lookup ?g0 x y)"
      by (rule lookup_set_cell [OF sh i])
    with True have "(if x = 0 \<and> y = 0 then Some 0 else lookup ?g0 x y) = Some 0"
      by (simp only:)
    then have "x = 0 \<and> y = 0"
      using l0 [of x y] by (metis (full_types))
    then show ?thesis using carved_opened [OF cv all] by simp
  next
    case False
    then show ?thesis using s c by (simp add: settled_def)
  qed
qed

lemma walk_even_cells:
  assumes fr: "fair rnd" and w: "1 \<le> w" and h: "1 \<le> h"
  shows "in_grid w h (2 * int i) (2 * int j) \<Longrightarrow>
         lookup (fst (walk rnd w h (replicate (nat h) (replicate (nat w) 1)) 0 0 0))
           (2 * int i) (2 * int j) = Some 0"
proof (induction i arbitrary: j)
  case 0
  let ?f = "fst (walk rnd w h (replicate (nat h) (replicate (nat w) 1)) 0 0 0)"
  from 0 show ?case
  proof (induction j)
    case 0
    from walk_good [OF fair_dirs_ok [OF fr] w h]
    have "floors_kept (set_cell 2 (replicate (nat h) (replicate (nat w) 1)) 0 0 0) ?f"
      by (simp add: carved_def)
    then show ?case using walls_only_good(2) [OF w h] by (simp add: floors_kept_def)
  next
    case (Suc j)
    then have "in_grid w h (2 * int 0) (2 * int j)" by (simp add: in_grid_def)
    from Suc.IH [OF this] have f: "lookup ?f 0 (2 * int j) = Some 0" by simp
    from walk_settled [OF fr w h _ _ f] have "opened w h ?f (0, 2 * int j)" by simp
    moreover have "(0, 2) \<in> set directions" by (simp add: directions_def)
    ultimately have "in_grid w h (0 + 0) (2 * int j + 2) \<longrightarrow> lookup ?f (0 + 0) (2 * int j + 2) = Some 0"
      unfolding opened_def by force
    then show ?case using Suc.prems by (simp add: algebra_simps)
  qed
next
  case (Suc i)
  let ?f = "fst (walk rnd w h (replicate (nat h) (replicate (nat w) 1)) 0 0 0)"
  from Suc.prems have "in_grid w h (2 * int i) (2 * int j)" by (simp add: in_grid_def)
  from Suc.IH [OF this] have f: "lookup ?f (2 * int i) (2 * int j) = Some 0" .
  from walk_settled [OF fr w h _ _ f] have "opened w h ?f (2 * int i, 2 * int j)" by simp
  moreover have "(2, 0) \<in> set directions" by (simp add: directions_def)
  ultimately have "in_grid w h (2 * int i + 2) (2 * int j + 0) \<longrightarrow>
                   lookup ?f (2 * int i + 2) (2 * int j + 0) = Some 0"
    unfolding opened_def by force
  then show ?case using Suc.prems by (simp add: algebra_simps)
qed

subsection \<open>The end cell lies in the last two rows and columns\<close>

lemma ring_cells_set:
  "set (ring_cells w h d) =
     {c. max 0 (w - 1 - d) \<le> fst c \<and> fst c \<le> w - 1 \<and> max 0 (h - 1 - d) \<le> snd c \<and> snd c \<le> h - 1}"
  by (auto simp: ring_cells_def)

lemma find_in_prefix:
  assumes "f \<in> set xs" "P f"
  shows "\<exists>c. find P (xs @ ys) = Some c \<and> c \<in> set xs \<and> P c"
  using assms
proof (induction xs)
  case Nil
  then show ?case by simp
next
  case (Cons a xs)
  then show ?case by (cases "P a") auto
qed

lemma find_end_near_corner:
  assumes w: "2 \<le> w" and h: "2 \<le> h" and f: "w - 2 \<le> fx" "fx \<le> w - 1" "h - 2 \<le> fy" "fy \<le> h - 1"
    and fl: "lookup g fx fy = Some 0"
  shows "lookup g (fst (find_end w h g)) (snd (find_end w h g)) = Some 0 \<and>
         w - 2 \<le> fst (find_end w h g) \<and> h - 2 \<le> snd (find_end w h g)"
proof -
  let ?D = "max w h - 1"
  let ?P = "\<lambda>c. lookup g (fst c) (snd c) = Some 0"
  have "[0 .. ?D] = 0 # [0 + 1 .. ?D]" using w by (intro upto_rec1) simp
  moreover have "[1 .. ?D] = 1 # [1 + 1 .. ?D]" using w by (intro upto_rec1) simp
  ultimately have u: "[0 .. ?D] = 0 # 1 # [2 .. ?D]" by simp
  have sc: "scan_cells w h =
              (ring_cells w h 0 @ ring_cells w h 1) @ concat (map (ring_cells w h) [2 .. ?D])"
    unfolding scan_cells_def u by simp
  have "(fx, fy) \<in> set (ring_cells w h 1)" using w h f by (simp add: ring_cells_set)
  then have "(fx, fy) \<in> set (ring_cells w h 0 @ ring_cells w h 1)" by simp
  moreover have "?P (fx, fy)" using fl by simp
  ultimately have "\<exists>c. find ?P (scan_cells w h) = Some c \<and>
      c \<in> set (ring_cells w h 0 @ ring_cells w h 1) \<and> ?P c"
    unfolding sc by (rule find_in_prefix)
  then obtain c where
    c: "find ?P (scan_cells w h) = Some c" "c \<in> set (ring_cells w h 0 @ ring_cells w h 1)" "?P c"
    by blast
  have e: "find_end w h g = c" by (simp add: find_end_def c(1))
  from c(2) have "w - 2 \<le> fst c \<and> h - 2 \<le> snd c"
    using w h by (auto simp: ring_cells_set)
  then show ?thesis using c(3) by (simp add: e)
qed

lemma last_even_cell:
  assumes "2 \<le> (n::int)"
  shows "\<exists>i. n - 2 \<le> 2 * int i \<and> 2 * int i \<le> n - 1"
proof -
  have "n - 2 \<le> 2 * int (nat ((n - 1) div 2)) \<and> 2 * int (nat ((n - 1) div 2)) \<le> n - 1"
    using assms by simp presburger
  then show ?thesis by blast
qed

lemma walk_end_near_corner:
  assumes fr: "fair rnd" and w: "2 \<le> w" and h: "2 \<le> h"
  shows "lookup (fst (walk rnd w h (replicate (nat h) (replicate (nat w) 1)) 0 0 0))
           (fst (find_end w h (fst (walk rnd w h (replicate (nat h) (replicate (nat w) 1)) 0 0 0))))
           (snd (find_end w h (fst (walk rnd w h (replicate (nat h) (replicate (nat w) 1)) 0 0 0))))
         = Some 0 \<and>
         w - 2 \<le> fst (find_end w h (fst (walk rnd w h (replicate (nat h) (replicate (nat w) 1)) 0 0 0))) \<and>
         h - 2 \<le> snd (find_end w h (fst (walk rnd w h (replicate (nat h) (replicate (nat w) 1)) 0 0 0)))"
proof -
  from last_even_cell [OF w] obtain i where i: "w - 2 \<le> 2 * int i" "2 * int i \<le> w - 1" by blast
  from last_even_cell [OF h] obtain j where j: "h - 2 \<le> 2 * int j" "2 * int j \<le> h - 1" by blast
  have "in_grid w h (2 * int i) (2 * int j)" using i j by (simp add: in_grid_def)
  from walk_even_cells [OF fr _ _ this] w h
  have "lookup (fst (walk rnd w h (replicate (nat h) (replicate (nat w) 1)) 0 0 0))
          (2 * int i) (2 * int j) = Some 0" by simp
  from find_end_near_corner [OF w h i j this] show ?thesis .
qed

subsection \<open>The breadth-first search reaches the end cell along adjacent cells\<close>

definition passable :: "int \<Rightarrow> int \<Rightarrow> maze_grid \<Rightarrow> Point \<Rightarrow> bool" where
  "passable w h g c =
     (0 \<le> fst c \<and> fst c < w \<and> 0 \<le> snd c \<and> snd c < h \<and> lookup g (fst c) (snd c) = Some 0)"

definition nb :: "Point \<Rightarrow> int \<times> int \<Rightarrow> Point" where
  "nb c d = (fst c + fst d, snd c + snd d)"

definition closed_but :: "int \<Rightarrow> int \<Rightarrow> maze_grid \<Rightarrow> Point set \<Rightarrow> Point set \<Rightarrow> bool" where
  "closed_but w h g X V =
     (\<forall>c \<in> V - X. \<forall>d \<in> set bfs_dirs. passable w h g (nb c d) \<longrightarrow> nb c d \<in> V)"

definition links :: "(Point \<rightharpoonup> Point) \<Rightarrow> bool" where
  "links par = (\<forall>c p. par c = Some p \<longrightarrow> adjacent p c)"

definition bfs_open :: "int \<Rightarrow> int \<Rightarrow> maze_grid \<Rightarrow> Point set \<Rightarrow> bfs_state \<Rightarrow> bool" where
  "bfs_open w h g X st =
     (case st of (vis, par, q) \<Rightarrow>
        length vis = nat h \<and> (0, 0) \<in> Vset vis \<and> set q \<subseteq> Vset vis \<and> links par \<and>
        closed_but w h g (X \<union> set q) (Vset vis))"

lemma bfs_dirs_adjacent: "d \<in> set bfs_dirs \<Longrightarrow> adjacent c (nb c d)"
  by (auto simp: bfs_dirs_def adjacent_def nb_def)

lemma adjacent_bfs_dir:
  assumes "adjacent p q"
  shows "\<exists>d \<in> set bfs_dirs. q = nb p d"
proof -
  let ?a = "fst q - fst p" and ?b = "snd q - snd p"
  from assms have "\<bar>?a\<bar> + \<bar>?b\<bar> = 1" by (simp add: adjacent_def abs_minus_commute)
  then have "(?a, ?b) = (0, 1) \<or> (?a, ?b) = (1, 0) \<or> (?a, ?b) = (0, -1) \<or> (?a, ?b) = (-1, 0)"
    by auto
  then have "(?a, ?b) \<in> set bfs_dirs" by (simp add: bfs_dirs_def)
  moreover have "q = nb p (?a, ?b)" by (simp add: nb_def)
  ultimately show ?thesis by blast
qed

lemma visit_open:
  assumes i: "bfs_open w h g {cur} st" and d: "d \<in> set bfs_dirs"
  shows "bfs_open w h g {cur} (visit w h g cur st d) \<and>
         Vset (fst st) \<subseteq> Vset (fst (visit w h g cur st d)) \<and>
         (passable w h g (nb cur d) \<longrightarrow> nb cur d \<in> Vset (fst (visit w h g cur st d)))"
proof -
  obtain vis par q where st: "st = (vis, par, q)" by (cases st)
  let ?nx = "fst cur + fst d" and ?ny = "snd cur + snd d"
  from i have len: "length vis = nat h" and z: "(0, 0) \<in> Vset vis" and qs: "set q \<subseteq> Vset vis"
    and lk: "links par" and cl: "closed_but w h g ({cur} \<union> set q) (Vset vis)"
    by (simp_all add: bfs_open_def st)
  show ?thesis
  proof (cases "0 \<le> ?nx \<and> ?nx < w \<and> 0 \<le> ?ny \<and> ?ny < h \<and> lookup g ?nx ?ny = Some 0
                  \<and> lookup vis ?nx ?ny \<noteq> Some True")
    case False
    then have v: "visit w h g cur st d = st" by (auto simp: visit_def st Let_def)
    have "passable w h g (nb cur d) \<longrightarrow> nb cur d \<in> Vset vis"
      using False by (auto simp: passable_def nb_def Vset_def)
    then show ?thesis using i unfolding v by (simp add: st)
  next
    case True
    let ?vis = "set_cell False vis ?nx ?ny True"
    have v: "visit w h g cur st d = (?vis, par((?nx, ?ny) \<mapsto> cur), q @ [(?nx, ?ny)])"
      using True by (simp add: visit_def st Let_def)
    have rng: "0 \<le> ?nx" "0 \<le> ?ny" "nat ?ny < length vis" using True len by auto
    have V: "Vset ?vis = insert (?nx, ?ny) (Vset vis)" by (rule Vset_mark [OF rng])
    have "adjacent cur (?nx, ?ny)" using bfs_dirs_adjacent [OF d, of cur] by (simp add: nb_def)
    then have lk': "links (par((?nx, ?ny) \<mapsto> cur))"
      using lk unfolding links_def by (metis fun_upd_apply option.inject)
    have cl': "closed_but w h g ({cur} \<union> set (q @ [(?nx, ?ny)])) (insert (?nx, ?ny) (Vset vis))"
      using cl unfolding closed_but_def by auto
    have o: "bfs_open w h g {cur} (?vis, par((?nx, ?ny) \<mapsto> cur), q @ [(?nx, ?ny)])"
      unfolding bfs_open_def prod.case V
      using len z qs lk' cl' by (auto simp: length_set_cell)
    have s: "Vset (fst st) \<subseteq> insert (?nx, ?ny) (Vset vis)" by (auto simp: st)
    have t: "nb cur d \<in> insert (?nx, ?ny) (Vset vis)" by (simp add: nb_def)
    show ?thesis unfolding v fst_conv V using o s t by (intro conjI impI)
  qed
qed

lemma visit_all_open:
  "bfs_open w h g {cur} st \<Longrightarrow> set ds \<subseteq> set bfs_dirs \<Longrightarrow>
   bfs_open w h g {cur} (foldl (visit w h g cur) st ds) \<and>
   Vset (fst st) \<subseteq> Vset (fst (foldl (visit w h g cur) st ds)) \<and>
   (\<forall>d \<in> set ds. passable w h g (nb cur d) \<longrightarrow> nb cur d \<in> Vset (fst (foldl (visit w h g cur) st ds)))"
proof (induction ds arbitrary: st)
  case Nil
  then show ?case by simp
next
  case (Cons d ds)
  let ?st = "visit w h g cur st d"
  from Cons.prems(2) have d: "d \<in> set bfs_dirs" and ds: "set ds \<subseteq> set bfs_dirs" by auto
  from visit_open [OF Cons.prems(1) d]
  have a: "bfs_open w h g {cur} ?st" "Vset (fst st) \<subseteq> Vset (fst ?st)"
    "passable w h g (nb cur d) \<longrightarrow> nb cur d \<in> Vset (fst ?st)" by simp_all
  from Cons.IH [OF a(1) ds]
  have b: "bfs_open w h g {cur} (foldl (visit w h g cur) ?st ds)"
    "Vset (fst ?st) \<subseteq> Vset (fst (foldl (visit w h g cur) ?st ds))"
    "\<forall>d \<in> set ds. passable w h g (nb cur d) \<longrightarrow> nb cur d \<in> Vset (fst (foldl (visit w h g cur) ?st ds))"
    by simp_all
  show ?case using a(2,3) b by auto
qed

definition bfs_done :: "int \<Rightarrow> int \<Rightarrow> maze_grid \<Rightarrow> Point \<Rightarrow> bfs_state \<Rightarrow> bool" where
  "bfs_done w h g e r =
     (case r of (vis, par, q) \<Rightarrow>
        links par \<and> (0, 0) \<in> Vset vis \<and> (e \<in> Vset vis \<or> closed_but w h g {} (Vset vis)))"

lemma bfs_result:
  assumes "bfs w h g e st = Some r"
  shows "bfs_open w h g {} st \<longrightarrow> bfs_done w h g e r"
proof (rule bfs.raw_induct [where P = "\<lambda>w h g e st r. bfs_open w h g {} st \<longrightarrow> bfs_done w h g e r",
      OF _ assms], goal_cases)
  case (1 f w h g e st r)
  obtain vis par q where st: "st = (vis, par, q)" by (cases st)
  show ?case
  proof
    assume i: "bfs_open w h g {} st"
    show "bfs_done w h g e r"
    proof (cases q)
      case Nil
      then have "r = st" using 1(2) by (simp add: st)
      then show ?thesis using i by (simp add: st Nil bfs_open_def bfs_done_def)
    next
      case (Cons cur rest)
      show ?thesis
      proof (cases "cur = e")
        case True
        then have "r = (vis, par, rest)" using 1(2) by (simp add: st Cons)
        then show ?thesis using i True by (auto simp: st Cons bfs_open_def bfs_done_def)
      next
        case False
        let ?st = "foldl (visit w h g cur) (vis, par, rest) bfs_dirs"
        have e: "f w h g e ?st = Some r" using 1(2) False by (simp add: st Cons)
        have i0: "bfs_open w h g {cur} (vis, par, rest)"
          using i by (simp add: st Cons bfs_open_def)
        from visit_all_open [OF i0 subset_refl]
        have a: "bfs_open w h g {cur} ?st"
          "\<forall>d \<in> set bfs_dirs. passable w h g (nb cur d) \<longrightarrow> nb cur d \<in> Vset (fst ?st)"
          by simp_all
        obtain vis' par' q' where s': "?st = (vis', par', q')" by (cases ?st)
        have "closed_but w h g (set q') (Vset vis')"
          using a unfolding s' bfs_open_def closed_but_def prod.case fst_conv by blast
        then have "bfs_open w h g {} ?st"
          using a(1) unfolding s' bfs_open_def prod.case by simp
        with 1(1) [OF e] show ?thesis by simp
      qed
    qed
  qed
qed

lemma closed_reach:
  assumes cl: "closed_but w h g {} V" and z: "(0, 0) \<in> V" and sh: "shape w h g"
  shows "reach g (0, 0) c \<Longrightarrow> c \<in> V"
proof (induction rule: reach.induct)
  case reach_start
  then show ?case using z by simp
next
  case (reach_step p q)
  from adjacent_bfs_dir [OF reach_step(2)] obtain d where d: "d \<in> set bfs_dirs" "q = nb p d"
    by blast
  from lookup_shape [OF sh, of "fst q" "snd q"] reach_step(3)
  have "passable w h g q" by (simp add: passable_def in_grid_def)
  then show ?case using cl reach_step.IH d unfolding closed_but_def by auto
qed

lemma trace_back_length:
  assumes w: "wf (parent_rel par)" and lk: "links par"
  shows "\<exists>r. trace_back par c acc = Some (acc @ c # r) \<and>
              \<bar>fst c - fst (last (c # r))\<bar> + \<bar>snd c - snd (last (c # r))\<bar> \<le> int (length r)"
  using w
proof (induction c arbitrary: acc rule: wf_induct_rule)
  case (less c)
  show ?case
  proof (cases "par c")
    case None
    then have "trace_back par c acc = Some (acc @ [c])" by (subst trace_back.simps) simp
    then show ?thesis by simp
  next
    case (Some p)
    then have pc: "(p, c) \<in> parent_rel par" by (simp add: parent_rel_def)
    from less.IH [OF pc, of "acc @ [c]"] obtain r where
      r: "trace_back par p (acc @ [c]) = Some ((acc @ [c]) @ p # r)"
         "\<bar>fst p - fst (last (p # r))\<bar> + \<bar>snd p - snd (last (p # r))\<bar> \<le> int (length r)"
      by blast
    have t: "trace_back par c acc = Some (acc @ c # p # r)"
      using r(1) Some by (subst trace_back.simps) simp
    from lk Some have "\<bar>fst p - fst c\<bar> + \<bar>snd p - snd c\<bar> = 1" by (simp add: links_def adjacent_def)
    with r(2) have "\<bar>fst c - fst (last (p # r))\<bar> + \<bar>snd c - snd (last (p # r))\<bar> \<le> int (length r) + 1"
      by linarith
    then show ?thesis using t by (intro exI [of _ "p # r"]) simp
  qed
qed

lemma find_path_long:
  assumes h: "1 \<le> h" and sh: "shape w h g" and re: "reach g (0, 0) e" and ne: "e \<noteq> (0, 0)"
    and fp: "find_path w h g e = Some path"
  shows "\<bar>fst e\<bar> + \<bar>snd e\<bar> + 1 \<le> int (length path)"
proof -
  from bfs_returns [OF visited0_inv [OF h], of w g e] obtain vis par q where
    b: "bfs w h g e (visited0 w h, Map.empty, [(0, 0)]) = Some (vis, par, q)"
    and i: "bfs_inv h (vis, par, q)"
    by (metis prod_cases3)
  from i have wf: "wf (parent_rel par)" and rn: "ran par \<subseteq> Vset vis"
    and pr: "\<forall>c \<in> Vset vis. c \<noteq> (0, 0) \<longrightarrow> c \<in> dom par"
    by (simp_all add: bfs_inv_def)
  have n: "nat 0 < length (replicate (nat h) (replicate (nat w) False))" using h by simp
  have "Vset (replicate (nat h) (replicate (nat w) False)) = {}"
    by (auto simp: Vset_def lookup_def)
  then have V: "Vset (visited0 w h) = {(0, 0)}"
    unfolding visited0_def using Vset_mark [OF _ _ n, of 0] by simp
  have "bfs_open w h g {} (visited0 w h, Map.empty, [(0, 0)])"
    unfolding bfs_open_def prod.case V
    using h by (simp add: visited0_def length_set_cell links_def closed_but_def)
  with bfs_result [OF b] have dn: "bfs_done w h g e (vis, par, q)" by simp
  then have lk: "links par" and z: "(0, 0) \<in> Vset vis"
    and c: "e \<in> Vset vis \<or> closed_but w h g {} (Vset vis)"
    by (simp_all add: bfs_done_def)
  have "e \<in> Vset vis" using c closed_reach [OF _ z sh re] by blast
  then have pe: "par e \<noteq> None" using pr ne by auto
  from trace_back_returns [OF wf, of e "[]"] obtain r where
    r: "trace_back par e [] = Some (e # r)"
       "par (last (e # r)) = None" "r \<noteq> [] \<longrightarrow> last r \<in> ran par"
    by auto
  from trace_back_length [OF wf lk, of e "[]"] r(1)
  have len: "\<bar>fst e - fst (last (e # r))\<bar> + \<bar>snd e - snd (last (e # r))\<bar> \<le> int (length r)"
    by simp
  have rne: "r \<noteq> []" using r(2) pe by auto
  then have "last r \<in> Vset vis" using r(3) rn by auto
  moreover have "last r \<notin> dom par" using r(2) rne by auto
  ultimately have "last r = (0, 0)" using pr by blast
  then have "\<bar>fst e\<bar> + \<bar>snd e\<bar> \<le> int (length r)" using len rne by simp
  moreover have "path = rev (e # r)" using fp by (simp add: find_path_def b r(1))
  ultimately show ?thesis by simp
qed

subsection \<open>Start, end, traps and safe zones\<close>

lemma scan_cells_origin_last:
  assumes "1 \<le> w" "1 \<le> h"
  shows "\<exists>xs. scan_cells w h = xs @ [(0, 0)] \<and> (0, 0) \<notin> set xs \<and>
              (\<forall>x y. in_grid w h x y \<and> (x, y) \<noteq> (0, 0) \<longrightarrow> (x, y) \<in> set xs)"
proof -
  let ?D = "max w h - 1"
  let ?row = "\<lambda>ty. map (\<lambda>tx. (tx, ty)) (rev [0 .. w - 1])"
  let ?A = "concat (map (ring_cells w h) [0 .. ?D - 1])"
  let ?B = "concat (map ?row (rev [1 .. h - 1]))"
  let ?C = "map (\<lambda>tx. (tx, 0 :: int)) (rev [1 .. w - 1])"
  have D: "0 \<le> ?D" using assms by simp
  have u: "[0 .. ?D] = [0 .. ?D - 1] @ [?D]" using D by (rule upto_rec2)
  have m: "max 0 (w - 1 - ?D) = 0" "max 0 (h - 1 - ?D) = 0" by simp_all
  have uh: "[0 .. h - 1] = 0 # [1 .. h - 1]" using assms upto_rec1 [of 0 "h - 1"] by simp
  have uw: "[0 .. w - 1] = 0 # [1 .. w - 1]" using assms upto_rec1 [of 0 "w - 1"] by simp
  have r0: "?row 0 = ?C @ [(0, 0)]" by (simp add: uw)
  have ring: "ring_cells w h ?D = ?B @ ?C @ [(0, 0)]"
    unfolding ring_cells_def m by (simp add: uh r0 del: upto.simps)
  have sc: "scan_cells w h = (?A @ ?B @ ?C) @ [(0, 0)]"
    unfolding scan_cells_def u by (simp add: ring del: upto.simps)
  have nA: "(0, 0) \<notin> set ?A"
  proof
    assume "(0, 0) \<in> set ?A"
    then obtain d where d: "0 \<le> d" "d \<le> ?D - 1" "(0, 0) \<in> set (ring_cells w h d)" by auto
    then have "w - 1 - d \<le> 0" "h - 1 - d \<le> 0" by (simp_all add: ring_cells_set)
    then show False using d(2) by linarith
  qed
  have nB: "(0, 0) \<notin> set ?B" by auto
  have nC: "(0, 0) \<notin> set ?C" by auto
  have cov: "(x, y) \<in> set (?B @ ?C)" if "in_grid w h x y" "(x, y) \<noteq> (0, 0)" for x y
  proof (cases "y = 0")
    case True
    then have "1 \<le> x" "x \<le> w - 1" using that by (auto simp: in_grid_def)
    then show ?thesis using True by auto
  next
    case False
    then have y: "y \<in> {1 .. h - 1}" and x: "x \<in> {0 .. w - 1}"
      using that by (auto simp: in_grid_def)
    have "(x, y) \<in> (\<lambda>tx. (tx, y)) ` {0 .. w - 1}" using x by (rule imageI)
    then have "\<exists>ty \<in> {1 .. h - 1}. (x, y) \<in> (\<lambda>tx. (tx, ty)) ` {0 .. w - 1}" using y by (intro bexI [of _ y])
    then have "(x, y) \<in> set ?B" by simp
    then show ?thesis by simp
  qed
  show ?thesis
    using sc nA nB nC cov by (intro exI [of _ "?A @ ?B @ ?C"]) auto
qed

lemma find_before_last:
  assumes "f \<in> set xs" "P f" "o' \<notin> set xs"
  shows "\<exists>c. find P (xs @ [o']) = Some c \<and> c \<noteq> o'"
  using assms
proof (induction xs)
  case Nil
  then show ?case by simp
next
  case (Cons a xs)
  then show ?case by (cases "P a") auto
qed

lemma find_end_not_origin:
  assumes "1 \<le> w" "1 \<le> h" "in_grid w h fx fy" "(fx, fy) \<noteq> (0, 0)" "lookup g fx fy = Some 0"
  shows "find_end w h g \<noteq> (0, 0)"
proof -
  from scan_cells_origin_last [OF assms(1,2)] obtain xs where
    xs: "scan_cells w h = xs @ [(0, 0)]" "(0, 0) \<notin> set xs" "(fx, fy) \<in> set xs"
    using assms(3,4) by blast
  from find_before_last [OF xs(3) _ xs(2), of "\<lambda>c. lookup g (fst c) (snd c) = Some 0"] assms(5)
  obtain c where "find (\<lambda>c. lookup g (fst c) (snd c) = Some 0) (xs @ [(0, 0)]) = Some c" "c \<noteq> (0, 0)"
    by auto
  then show ?thesis by (simp add: find_end_def xs(1))
qed

lemma walk_opens_neighbours:
  assumes "fair rnd" "1 \<le> w" "1 \<le> h" "(dx, dy) \<in> set directions" "in_grid w h dx dy"
  shows "lookup (fst (walk rnd w h (replicate (nat h) (replicate (nat w) 1)) 0 0 0)) dx dy = Some 0"
proof -
  from walk_good [OF fair_dirs_ok [OF assms(1)] assms(2,3)]
  have "\<forall>d \<in> set (shuffle rnd 0 directions). in_grid w h (0 + fst d) (0 + snd d) \<longrightarrow>
          lookup (fst (walk rnd w h (replicate (nat h) (replicate (nat w) 1)) 0 0 0))
            (0 + fst d) (0 + snd d) = Some 0"
    by (simp add: carved_def)
  then show ?thesis using assms(4,5) fair_dirs_all [OF assms(1), of 0] by fastforce
qed

lemma start_not_end:
  assumes "generateMaze w h d rnd = Some (Inr m)" "fair rnd" "1 \<le> w" "1 \<le> h" "3 \<le> w \<or> 3 \<le> h"
  shows "start m \<noteq> endp m"
proof -
  note f = generateMaze_grid [OF assms(1)]
  from assms(5) obtain dx dy where
    d: "(dx, dy) \<in> set directions" "in_grid w h dx dy" "(dx, dy) \<noteq> (0, 0)"
  proof
    assume "3 \<le> w"
    then show thesis using assms(4) that [of 2 0] by (simp add: directions_def in_grid_def)
  next
    assume "3 \<le> h"
    then show thesis using assms(3) that [of 0 2] by (simp add: directions_def in_grid_def)
  qed
  from walk_opens_neighbours [OF assms(2,3,4) d(1,2)] f
  have "lookup (grid m) dx dy = Some 0" by simp
  from find_end_not_origin [OF assms(3,4) d(2,3) this] f show ?thesis by simp
qed

lemma path_zones_inner:
  assumes di: "distinct path" and len: "cnt + 1 < int (length path)" and c: "1 \<le> cnt"
  shows "\<forall>z \<in> set (path_zones path cnt). z \<noteq> hd path \<and> z \<noteq> last path"
proof
  fix z assume "z \<in> set (path_zones path cnt)"
  let ?n = "int (length path)"
  let ?step = "?n div (cnt + 1)"
  from \<open>z \<in> set (path_zones path cnt)\<close> obtain i where
    i: "1 \<le> i" "i \<le> cnt" "z = path ! nat (min (i * ?step) (?n - 1))"
    by (auto simp: path_zones_def Let_def)
  have "0 < ?step" using len c by (subst pos_imp_zdiv_pos_iff) simp_all
  then have s1: "1 \<le> ?step" by simp
  have "0 \<le> ?n mod (cnt + 1)" using c by (intro pos_mod_sign) simp
  then have "(cnt + 1) * ?step \<le> ?n" by (simp only: minus_mod_eq_mult_div [symmetric])
  then have cs: "cnt * ?step + ?step \<le> ?n" by (simp add: algebra_simps)
  have up: "cnt * ?step \<le> ?n - 2"
  proof (cases "?step = 1")
    case True
    then show ?thesis using len by simp
  next
    case False
    then have "2 \<le> ?step" using s1 by simp
    then show ?thesis using cs by simp
  qed
  have "i * ?step \<le> cnt * ?step" using i(2) s1 by (simp add: mult_right_mono)
  then have hi: "i * ?step \<le> ?n - 2" using up by simp
  have "1 * 1 \<le> i * ?step" using i(1) s1 by (intro mult_mono) simp_all
  then have lo: "1 \<le> i * ?step" by simp
  let ?k = "nat (i * ?step)"
  have m: "min (i * ?step) (?n - 1) = i * ?step" using hi by simp
  have k: "0 < ?k" "?k < length path - 1" "?k < length path" using lo hi by auto
  have ne: "path \<noteq> []" using len c by auto
  then have "0 < length path" by simp
  from nth_eq_iff_index_eq [OF di k(3) this] k(1)
  have "path ! ?k \<noteq> path ! 0" by simp
  moreover have "length path - 1 < length path" using ne by simp
  from nth_eq_iff_index_eq [OF di k(3) this] k(2)
  have "path ! ?k \<noteq> path ! (length path - 1)" by simp
  ultimately show "z \<noteq> hd path \<and> z \<noteq> last path"
    using ne by (simp add: i(3) m hd_conv_nth last_conv_nth)
qed

lemma safeZoneCount_pos: "1 \<le> safeZoneCount d"
  by (simp add: safeZoneCount_def)

lemma safe_zones_inside:
  assumes gm: "generateMaze w h d rnd = Some (Inr m)" and w: "2 \<le> w" and h: "2 \<le> h"
    and d: "0 \<le> d" and fr: "fair rnd" and big: "9 \<le> w + h"
  shows "\<forall>z \<in> set (safeZones m). z \<noteq> start m \<and> z \<noteq> endp m"
proof -
  note f = generateMaze_grid [OF gm]
  from f obtain path where p: "find_path w h (grid m) (endp m) = Some path"
    and sz: "safeZones m = path_zones path (safeZoneCount d)" by blast
  from walk_end_near_corner [OF fr w h] f
  have e: "lookup (grid m) (fst (endp m)) (snd (endp m)) = Some 0"
    "w - 2 \<le> fst (endp m)" "h - 2 \<le> snd (endp m)" by simp_all
  from walk_good [OF fair_dirs_ok [OF fr], of w h] w h f
  have gd: "good w h (grid m)" by (simp add: carved_def)
  then have sh: "shape w h (grid m)" and co: "floor_connected (grid m)" by (simp_all add: good_def)
  from co e(1) have "reach (grid m) (0, 0) (fst (endp m), snd (endp m))"
    unfolding floor_connected_def by blast
  then have re: "reach (grid m) (0, 0) (endp m)" by simp
  have ne: "endp m \<noteq> (0, 0)" using e(2,3) big by (cases "endp m") auto
  have h1: "1 \<le> h" using h by simp
  from find_path_long [OF h1 sh re ne p] e(2,3) w h big
  have len: "6 \<le> int (length path)" by linarith
  have "0 \<le> \<lfloor>d / 3\<rfloor>" using d by simp
  then have "safeZoneCount d \<le> 4" by (simp add: safeZoneCount_def)
  with len have long: "safeZoneCount d + 1 < int (length path)" by linarith
  from find_path_returns [OF h1, of w "grid m" "endp m"] p
  have q: "last path = endp m" "distinct path" "2 \<le> length path \<longrightarrow> hd path = (0, 0)"
    by auto
  have "2 \<le> length path" using len by linarith
  with q(3) f have hd: "hd path = start m" by simp
  from path_zones_inner [OF q(2) long safeZoneCount_pos]
  show ?thesis by (simp add: sz hd q(1))
qed

definition maze5 :: MazeData where
  "maze5 = \<lparr>grid = [[0, 1, 0, 0, 0], [0, 1, 0, 1, 0], [0, 0, 0, 1, 0], [1, 1, 1, 1, 0], [0, 0, 0, 0, 0]],
     width = 5, height = 5, start = (0, 0), endp = (4, 4),
     traps = [\<lparr>t_x = 0, t_y = 2, t_state = safe\<rparr>],
     safeZones = [(0, 2), (2, 2), (2, 0), (4, 0)]\<rparr>"

lemma generateMaze_5x5: "generateMaze 5 5 1 rng0 = Some (Inr maze5)"
  by code_simp

definition tiny :: "(js_error + MazeData) option \<Rightarrow> (Point \<times> Point \<times> Point list) option" where
  "tiny r = (case r of Some (Inr m) \<Rightarrow> Some (start m, endp m, safeZones m) | _ \<Rightarrow> None)"

text \<open>
  C3, as stated, fails on small mazes. In a 2x2 maze the carve opens the cell (0, 0) only,
  the end-cell scan falls back to it, and the safe zones are that cell as well. In a 3x3
  and in a 4x4 maze the end cell is (2, 2); with the shuffles below the path from start to
  end has five cells, and the fourth of the four safe zones is the end cell.
\<close>

theorem tiny_maze_start_is_end:
  "fair rng0 \<and>
   tiny (generateMaze 2 2 1 rng0) = Some ((0, 0), (0, 0), [(0, 0), (0, 0), (0, 0), (0, 0)]) \<and>
   tiny (generateMaze 3 3 1 rng0) = Some ((0, 0), (2, 2), [(0, 1), (0, 2), (1, 2), (2, 2)]) \<and>
   tiny (generateMaze 4 4 1 rng0) = Some ((0, 0), (2, 2), [(0, 1), (0, 2), (1, 2), (2, 2)])"
proof -
  have "tiny (generateMaze 2 2 1 rng0) = Some ((0, 0), (0, 0), [(0, 0), (0, 0), (0, 0), (0, 0)])"
    by code_simp
  moreover have "tiny (generateMaze 3 3 1 rng0) = Some ((0, 0), (2, 2), [(0, 1), (0, 2), (1, 2), (2, 2)])"
    by code_simp
  moreover have "tiny (generateMaze 4 4 1 rng0) = Some ((0, 0), (2, 2), [(0, 1), (0, 2), (1, 2), (2, 2)])"
    by code_simp
  ultimately show ?thesis using fair_rng0 by simp
qed

text \<open>
  C3, amended. For every maze returned by generateMaze with width and height at least 2
  and a non-negative difficulty (the shuffles being permutations of the four directions):
  no trap cell equals the start or the end cell; the start and the end cell are distinct
  when the width or the height is at least 3; and no safe-zone cell equals the start or
  the end cell when width + height is at least 9. (The end cell then lies at least five
  steps from the start, so the path has at least six cells, more than the at most four
  safe zones plus one.)
\<close>

theorem start_end_avoided:
  assumes "generateMaze w h d rnd = Some (Inr m)" and "2 \<le> w" and "2 \<le> h" and "0 \<le> d"
    and "fair rnd"
  shows "(\<forall>t \<in> set (traps m). (t_x t, t_y t) \<noteq> start m \<and> (t_x t, t_y t) \<noteq> endp m) \<and>
         (3 \<le> w \<or> 3 \<le> h \<longrightarrow> start m \<noteq> endp m) \<and>
         (9 \<le> w + h \<longrightarrow> (\<forall>z \<in> set (safeZones m). z \<noteq> start m \<and> z \<noteq> endp m))"
proof (intro conjI impI)
  note f = generateMaze_grid [OF assms(1)]
  show "\<forall>t \<in> set (traps m). (t_x t, t_y t) \<noteq> start m \<and> (t_x t, t_y t) \<noteq> endp m"
    using f trap_loop_avoids [of "[]" "endp m" rnd w h "grid m" "trapCount_of w h d" 0 0] by simp
  show "start m \<noteq> endp m" if "3 \<le> w \<or> 3 \<le> h"
    using start_not_end [OF assms(1,5) _ _ that] assms(2,3) by simp
  show "\<forall>z \<in> set (safeZones m). z \<noteq> start m \<and> z \<noteq> endp m" if "9 \<le> w + h"
    by (rule safe_zones_inside [OF assms that])
qed

theorem start_end_avoided_witness:
  "generateMaze 5 5 1 rng0 = Some (Inr maze5) \<and> (2::int) \<le> 5 \<and> (0::rat) \<le> 1 \<and> fair rng0 \<and>
   (9::int) \<le> 5 + 5 \<and>
   start maze5 \<noteq> endp maze5 \<and>
   start maze5 \<notin> set (safeZones maze5) \<and> endp maze5 \<notin> set (safeZones maze5) \<and>
   start maze5 \<notin> (\<lambda>t. (t_x t, t_y t)) ` set (traps maze5) \<and>
   endp maze5 \<notin> (\<lambda>t. (t_x t, t_y t)) ` set (traps maze5)"
proof -
  have b: "(2::int) \<le> 5" "(0::rat) \<le> 1" "(3::int) \<le> 5" "(9::int) \<le> 5 + 5" by simp_all
  note t = start_end_avoided [OF generateMaze_5x5 b(1) b(1) b(2) fair_rng0]
  from t have 1: "\<forall>t \<in> set (traps maze5). (t_x t, t_y t) \<noteq> start maze5 \<and> (t_x t, t_y t) \<noteq> endp maze5"
    by (rule conjunct1)
  from t b(3) have 2: "start maze5 \<noteq> endp maze5" by blast
  from t b(4) have 3: "\<forall>z \<in> set (safeZones maze5). z \<noteq> start maze5 \<and> z \<noteq> endp maze5"
    by blast
  from 1 have 4: "start maze5 \<notin> (\<lambda>t. (t_x t, t_y t)) ` set (traps maze5)"
    "endp maze5 \<notin> (\<lambda>t. (t_x t, t_y t)) ` set (traps maze5)" by force+
  from 3 have 5: "start maze5 \<notin> set (safeZones maze5)" "endp maze5 \<notin> set (safeZones maze5)"
    by force+
  show ?thesis using generateMaze_5x5 b(1,2,4) fair_rng0 2 4 5 by (intro conjI)
qed

section \<open>The room relay (server)\<close>

text \<open>
  The relay keeps a registry \<open>rooms\<close> (a JavaScript \<open>Map\<close> from room id to room) and, in
  the closure of every connection, the two variables \<open>currentRoomId\<close> and \<open>playerId\<close>.
  A connection is identified by a number; \<open>clients\<close> is the server's client set in the
  order of connection. The payload fields that the relay only copies (maze, coordinates,
  colour, angle, time) are kept as their JSON text. Room and player ids are strings, as the
  client sends them; JavaScript truthiness of a string is non-emptiness.

  \<open>room.players\<close> is a plain JavaScript object. Its own properties are the map \<open>players\<close>;
  they are what \<open>JSON.stringify\<close>, \<open>Object.keys\<close> and \<open>delete\<close> see. An assignment to the key
  \<open>__proto__\<close> makes no own property: it replaces the prototype of the object by the
  assigned player object, which \<open>r_proto\<close> records (\<open>None\<close> is \<open>Object.prototype\<close>). A read of
  a key that is no own property goes to the prototype: the key \<open>__proto__\<close> gives the
  prototype itself, and the names in \<open>proto_names\<close> give the methods of
  \<open>Object.prototype\<close>, which are objects and so are truthy.
\<close>

type_synonym json = string
type_synonym conn = nat

record player =
  p_id :: string
  p_x :: json
  p_y :: json
  p_angle :: json
  p_color :: json

record room =
  players :: "string \<rightharpoonup> player"
  r_proto :: "player option"
  r_maze :: json
  startTime :: "json option"

record client =
  readyOpen :: bool
  currentRoomId :: "string option"
  playerId :: "string option"

record server =
  rooms :: "string \<rightharpoonup> room"
  clients :: "(conn \<times> client) list"

text \<open>
  A parsed client message: its \<open>type\<close> field and the fields the handlers read. A type that
  is absent or is not a string is a text other than the three names of the \<open>switch\<close>.
\<close>

record message =
  m_type :: string
  m_roomId :: string
  m_playerId :: string
  m_maze :: json
  m_x :: json
  m_y :: json
  m_color :: json
  m_angle :: json
  m_time :: json

text \<open>
  What arrives on the socket: text that \<open>JSON.parse\<close> rejects, the JSON text \<open>null\<close>, or text
  that parses to another value.
\<close>

datatype incoming = Malformed | ParsedNull | Parsed message

datatype outmsg =
    PLAYER_JOINED "string \<rightharpoonup> player" json
  | STATE_UPDATE "string \<rightharpoonup> player"
  | GAME_OVER "string option" json
  | PLAYER_LEFT "string option"

definition proto_names :: "string list" where
  "proto_names =
     [''constructor'', ''__defineGetter__'', ''__defineSetter__'', ''hasOwnProperty'',
      ''__lookupGetter__'', ''__lookupSetter__'', ''isPrototypeOf'', ''propertyIsEnumerable'',
      ''toString'', ''valueOf'', ''toLocaleString'']"

definition field_names :: "string list" where
  "field_names = [''id'', ''x'', ''y'', ''angle'', ''color'']"

definition truthy :: "string option \<Rightarrow> bool" where
  "truthy v = (case v of None \<Rightarrow> False | Some s \<Rightarrow> s \<noteq> [])"

text \<open>
  \<open>broadcastToRoom(roomId, message, excludeWs)\<close> walks over \<open>wss.clients\<close> and sends to every
  open client other than \<open>excludeWs\<close>. The room id is a parameter of the function and is
  not read by its body.
\<close>

definition broadcastToRoom ::
  "server \<Rightarrow> string \<Rightarrow> outmsg \<Rightarrow> conn option \<Rightarrow> (conn \<times> outmsg) list" where
  "broadcastToRoom s roomId msg excludeWs =
     map (\<lambda>(c, cl). (c, msg))
       (filter (\<lambda>(c, cl). readyOpen cl \<and> Some c \<noteq> excludeWs) (clients s))"

definition set_client :: "server \<Rightarrow> conn \<Rightarrow> client \<Rightarrow> server" where
  "set_client s c cl = s\<lparr>clients := map (\<lambda>(c', cl'). if c' = c then (c', cl) else (c', cl')) (clients s)\<rparr>"

definition on_join :: "server \<Rightarrow> conn \<Rightarrow> client \<Rightarrow> message \<Rightarrow> server \<times> (conn \<times> outmsg) list" where
  "on_join s c cl msg =
     (let rid = m_roomId msg; pl = m_playerId msg;
          s1 = set_client s c (cl\<lparr>currentRoomId := Some rid, playerId := Some pl\<rparr>);
          rs = (case rooms s1 rid of
                  None \<Rightarrow> (rooms s1)(rid \<mapsto>
                    \<lparr>players = Map.empty, r_proto = None, r_maze = m_maze msg, startTime = None\<rparr>)
                | Some r \<Rightarrow> rooms s1);
          r = the (rs rid);
          p = \<lparr>p_id = pl, p_x = m_x msg, p_y = m_y msg, p_angle = ''0'', p_color = m_color msg\<rparr>;
          r' = (if pl = ''__proto__'' then r\<lparr>r_proto := Some p\<rparr>
                else r\<lparr>players := (players r)(pl \<mapsto> p)\<rparr>);
          s2 = s1\<lparr>rooms := rs(rid \<mapsto> r')\<rparr>
      in (s2, broadcastToRoom s2 rid (PLAYER_JOINED (players r') (r_maze r')) None))"

text \<open>
  What a handler does with a frame: it throws, or it returns with a new state and the
  messages sent. \<open>Unmodelled\<close> stands for two cases of \<open>UPDATE_POSITION\<close> that write through the
  prototype of \<open>room.players\<close> to something that is no player object: a write to
  \<open>Object.prototype\<close> itself, and a write to a field value of a player object that serves
  as prototype.
\<close>

datatype reply = Throws js_error | Returns server "(conn \<times> outmsg) list" | Unmodelled

definition on_update :: "server \<Rightarrow> conn \<Rightarrow> client \<Rightarrow> message \<Rightarrow> reply" where
  "on_update s c cl msg =
     (if truthy (currentRoomId cl) \<and> truthy (playerId cl) then
        (let rid = the (currentRoomId cl); pid = the (playerId cl) in
         case rooms s rid of
           None \<Rightarrow> Returns s []
         | Some r \<Rightarrow>
            if pid = ''__proto__'' then
              (case r_proto r of
                 None \<Rightarrow> Unmodelled
               | Some p \<Rightarrow>
                  (let p' = p\<lparr>p_x := m_x msg, p_y := m_y msg, p_angle := m_angle msg\<rparr>;
                       s' = s\<lparr>rooms := (rooms s)(rid \<mapsto> r\<lparr>r_proto := Some p'\<rparr>)\<rparr>
                   in Returns s' (broadcastToRoom s' rid (STATE_UPDATE (players r)) (Some c))))
            else
              (case players r pid of
                 Some p \<Rightarrow>
                  (let p' = p\<lparr>p_x := m_x msg, p_y := m_y msg, p_angle := m_angle msg\<rparr>;
                       r' = r\<lparr>players := (players r)(pid \<mapsto> p')\<rparr>;
                       s' = s\<lparr>rooms := (rooms s)(rid \<mapsto> r')\<rparr>
                   in Returns s' (broadcastToRoom s' rid (STATE_UPDATE (players r')) (Some c)))
               | None \<Rightarrow>
                  if r_proto r \<noteq> None \<and> pid \<in> set field_names then Unmodelled
                  else if pid \<in> set proto_names
                    then Returns s (broadcastToRoom s rid (STATE_UPDATE (players r)) (Some c))
                  else Returns s []))
      else Returns s [])"

definition on_win :: "server \<Rightarrow> conn \<Rightarrow> client \<Rightarrow> message \<Rightarrow> server \<times> (conn \<times> outmsg) list" where
  "on_win s c cl msg =
     (if truthy (currentRoomId cl)
      then (s, broadcastToRoom s (the (currentRoomId cl)) (GAME_OVER (playerId cl) (m_time msg)) None)
      else (s, []))"

text \<open>
  The \<open>message\<close> handler of a connection. \<open>JSON.parse\<close> is its first statement and stands
  in no \<open>try\<close>: text that does not parse leaves the handler by a \<open>SyntaxError\<close>, and
  reading \<open>message.type\<close> of \<open>null\<close> by a \<open>TypeError\<close>. The \<open>switch\<close> has three cases and
  no default.
\<close>

definition on_message :: "server \<Rightarrow> conn \<Rightarrow> incoming \<Rightarrow> reply" where
  "on_message s c d =
     (case d of
        Malformed \<Rightarrow> Throws SyntaxError
      | ParsedNull \<Rightarrow> Throws TypeError
      | Parsed msg \<Rightarrow>
         (case map_of (clients s) c of
            None \<Rightarrow> Returns s []
          | Some cl \<Rightarrow>
             (if m_type msg = ''JOIN_ROOM''
                then (case on_join s c cl msg of (s', out) \<Rightarrow> Returns s' out)
              else if m_type msg = ''UPDATE_POSITION'' then on_update s c cl msg
              else if m_type msg = ''WIN''
                then (case on_win s c cl msg of (s', out) \<Rightarrow> Returns s' out)
              else Returns s [])))"

text \<open>
  The relay process on a sequence of frames, each with the connection it arrives on: the
  messages sent, and how the process stands afterwards. An exception that leaves the
  \<open>message\<close> listener is caught nowhere: the file has no \<open>try\<close>, and it registers no
  \<open>error\<close> listener and no handler for uncaught exceptions. The process ends with it, and
  the frames that follow are not handled.
\<close>

datatype relay = Up server | Down js_error | Beyond

fun serve :: "server \<Rightarrow> (conn \<times> incoming) list \<Rightarrow> (conn \<times> outmsg) list \<times> relay" where
  "serve s [] = ([], Up s)"
| "serve s ((c, d) # fs) =
     (case on_message s c d of
        Throws e \<Rightarrow> ([], Down e)
      | Unmodelled \<Rightarrow> ([], Beyond)
      | Returns s' out \<Rightarrow> (case serve s' fs of (out', r) \<Rightarrow> (out @ out', r)))"

text \<open>The \<open>close\<close> handler; the closed socket has left \<open>wss.clients\<close> when it runs.\<close>

definition on_close :: "server \<Rightarrow> conn \<Rightarrow> server \<times> (conn \<times> outmsg) list" where
  "on_close s c =
     (case map_of (clients s) c of
        None \<Rightarrow> (s, [])
      | Some cl \<Rightarrow>
         (let s0 = s\<lparr>clients := filter (\<lambda>(c', cl'). c' \<noteq> c) (clients s)\<rparr> in
          if truthy (currentRoomId cl) \<and> truthy (playerId cl) then
            (case rooms s0 (the (currentRoomId cl)) of
               None \<Rightarrow> (s0, [])
             | Some r \<Rightarrow>
                (let ps = (players r)(the (playerId cl) := None) in
                 if ps = Map.empty
                 then (s0\<lparr>rooms := (rooms s0)(the (currentRoomId cl) := None)\<rparr>, [])
                 else (let s1 = s0\<lparr>rooms := (rooms s0)(the (currentRoomId cl) \<mapsto> r\<lparr>players := ps\<rparr>)\<rparr>
                       in (s1, broadcastToRoom s1 (the (currentRoomId cl)) (PLAYER_LEFT (playerId cl)) None))))
          else (s0, [])))"

definition on_connection :: "server \<Rightarrow> conn \<Rightarrow> server" where
  "on_connection s c =
     s\<lparr>clients := clients s @ [(c, \<lparr>readyOpen = True, currentRoomId = None, playerId = None\<rparr>)]\<rparr>"

definition server0 :: server where
  "server0 = \<lparr>rooms = Map.empty, clients = []\<rparr>"

definition join_msg :: "string \<Rightarrow> string \<Rightarrow> message" where
  "join_msg rid pl = \<lparr>m_type = ''JOIN_ROOM'', m_roomId = rid, m_playerId = pl, m_maze = ''{}'',
     m_x = ''20'', m_y = ''20'', m_color = ''#10b981'', m_angle = ''0'', m_time = ''0''\<rparr>"

definition update_msg :: message where
  "update_msg = \<lparr>m_type = ''UPDATE_POSITION'', m_roomId = [], m_playerId = [], m_maze = [],
     m_x = ''24'', m_y = ''20'', m_color = [], m_angle = ''0'', m_time = []\<rparr>"

definition ping_msg :: message where
  "ping_msg = \<lparr>m_type = ''PING'', m_roomId = [], m_playerId = [], m_maze = [],
     m_x = [], m_y = [], m_color = [], m_angle = [], m_time = []\<rparr>"

text \<open>Two connections; the first joins room A as p1, the second joins room B as p2.\<close>

definition two_rooms :: server where
  "two_rooms =
     (let s1 = on_connection (on_connection server0 1) 2;
          s2 = (case on_message s1 1 (Parsed (join_msg ''A'' ''p1'')) of Returns s out \<Rightarrow> s | _ \<Rightarrow> s1);
          s3 = (case on_message s2 2 (Parsed (join_msg ''B'' ''p2'')) of Returns s out \<Rightarrow> s | _ \<Rightarrow> s2)
      in s3)"

definition recipients :: "reply \<Rightarrow> conn list" where
  "recipients r = (case r of Returns s out \<Rightarrow> map fst out | _ \<Rightarrow> [])"

definition joined_room :: "server \<Rightarrow> conn \<Rightarrow> string option" where
  "joined_room s c = (case map_of (clients s) c of None \<Rightarrow> None | Some cl \<Rightarrow> currentRoomId cl)"

section \<open>Properties of the client state machine\<close>

lemma initGame_keeps:
  assumes "initGame s target rnd = Some s'"
  shows "difficulty s' = difficulty s" "phase s' = phase s" "coins s' = coins s"
    "gameState s' = target" "pendingShop s' = pendingShop s"
    "pendingRespawns s' = pendingRespawns s" "time s' = 0"
    "distractorTimer s' = DISTRACTOR_DURATION"
  using assms by (auto simp: initGame_def Let_def split: option.splits sum.splits)

lemma respawn_keeps:
  "difficulty (respawn s) = difficulty s" "phase (respawn s) = phase s"
  "coins (respawn s) = coins s" "pendingShop (respawn s) = pendingShop s"
  "time (respawn s) = time s" "maze (respawn s) = maze s" "myPos (respawn s) = myPos s"
  by (simp_all add: respawn_def split: option.splits)

lemma wipe_tick_keeps:
  "difficulty (wipe_tick s) = difficulty s" "phase (wipe_tick s) = phase s"
  "coins (wipe_tick s) = coins s" "pendingShop (wipe_tick s) = pendingShop s"
  "time (wipe_tick s) = time s" "maze (wipe_tick s) = maze s"
  "practiceTimer (wipe_tick s) = practiceTimer s" "phaseTime (wipe_tick s) = phaseTime s"
  by (simp_all add: wipe_tick_def respawn_keeps respawn_def split: option.splits)

lemma trap_tick_keeps:
  "difficulty (trap_tick fl s) = difficulty s" "phase (trap_tick fl s) = phase s"
  "coins (trap_tick fl s) = coins s" "pendingShop (trap_tick fl s) = pendingShop s"
  "time (trap_tick fl s) = time s" "maze (trap_tick fl s) = maze s"
  "practiceTimer (trap_tick fl s) = practiceTimer s" "phaseTime (trap_tick fl s) = phaseTime s"
  "gameState (trap_tick fl s) = gameState s"
  by (simp_all add: trap_tick_def)

lemma tick_difficulty:
  assumes "tick rnd fl s = Some s'"
  shows "difficulty s' = difficulty s"
  using assms
  by (auto simp: tick_def Let_def phase_clock_def practice_clock_def shop_clock_def
      distractor_clock_def trap_tick_keeps wipe_tick_keeps initGame_keeps
      split: if_splits)

lemma move_difficulty:
  assumes "move dx dy moving s = Some s'"
  shows "difficulty s' = difficulty s \<or>
         difficulty s' = min (difficulty s + 1) 10 \<or> difficulty s' = min (difficulty s + 1 / 2) 10"
  using assms
  by (auto simp: move_def Let_def win_def respawn_keeps
      split: option.splits if_splits sum.splits)

lemma step_difficulty:
  assumes "step e s = Some s'"
  shows "difficulty s' = difficulty s \<or>
         difficulty s' = min (difficulty s + 1) 10 \<or> difficulty s' = min (difficulty s + 1 / 2) 10"
proof (cases e)
  case (Tick rnd fl)
  then show ?thesis using assms tick_difficulty by simp
next
  case (Move dx dy moving)
  then show ?thesis using assms move_difficulty by (simp split: if_splits)
qed (use assms in \<open>auto simp: respawn_keeps initGame_keeps Let_def split: if_splits list.splits\<close>)

lemma step_difficulty_bounds:
  assumes "step e s = Some s'" "1 \<le> difficulty s" "difficulty s \<le> 10"
  shows "1 \<le> difficulty s' \<and> difficulty s' \<le> 10"
  using step_difficulty [OF assms(1)] assms(2,3) by auto

lemma run_difficulty_bounds:
  "run es s = Some s' \<Longrightarrow> 1 \<le> difficulty s \<Longrightarrow> difficulty s \<le> 10 \<Longrightarrow>
   1 \<le> difficulty s' \<and> difficulty s' \<le> 10"
proof (induction es arbitrary: s)
  case Nil
  then show ?case by simp
next
  case (Cons e es)
  then obtain s1 where s1: "step e s = Some s1" "run es s1 = Some s'"
    by (auto split: option.splits)
  from step_difficulty_bounds [OF s1(1) Cons.prems(2,3)] Cons.IH [OF s1(2)]
  show ?case by simp
qed

lemma reachable_difficulty: "reachable s \<Longrightarrow> 1 \<le> difficulty s \<and> difficulty s \<le> 10"
  unfolding reachable_def using run_difficulty_bounds [of _ app0 s]
  by (auto simp: app0_def)

text \<open>
  C10. The difficulty never exceeds 10: the two operations that raise it (a local win in
  the movement callback, a GAME_OVER message naming this player) clamp their result, and
  nothing else writes it; so every state reachable from the initial state (difficulty 1)
  by any sequence of callbacks has difficulty at most 10.
\<close>

theorem difficulty_at_most_10:
  "reachable s \<Longrightarrow> difficulty s \<le> 10"
  using reachable_difficulty by blast

theorem difficulty_at_most_10_witness:
  "run [GameOverMsg True 5] app0 = Some (app0\<lparr>gameState := won, winner := Some (''me'', 5), difficulty := 3 / 2\<rparr>) \<and>
   difficulty (app0\<lparr>gameState := won, winner := Some (''me'', 5), difficulty := 3 / 2\<rparr>) \<le> 10"
proof -
  have r: "run [GameOverMsg True 5] app0 =
      Some (app0\<lparr>gameState := won, winner := Some (''me'', 5), difficulty := 3 / 2\<rparr>)"
    by (simp add: app0_def)
  then have "reachable (app0\<lparr>gameState := won, winner := Some (''me'', 5), difficulty := 3 / 2\<rparr>)"
    unfolding reachable_def by blast
  from difficulty_at_most_10 [OF this] r show ?thesis by blast
qed

lemma move_idle:
  assumes "move dx dy moving s = Some s'" "maze s = Some m" "\<not> moving \<or> frozen s"
  shows "myPos s' = myPos s"
  using assms
  by (auto simp: move_def Let_def respawn_keeps split: if_splits sum.splits)

lemma move_done:
  assumes "move dx dy moving s = Some s'" "maze s = Some m" "moving" "\<not> frozen s"
    "gameState s = playing" "cell_of (fst (myPos s')) (snd (myPos s')) = endp m"
  shows "gameState s' = won \<and> coins s' = coins s + earned (time s)"
  using assms
  by (auto simp: move_def Let_def win_def split: if_splits sum.splits)

text \<open>
  C6. A movement tick in state playing whose resulting grid cell is the maze end cell
  (the player enters the end cell, or a completed move ends in it) sets the state to won
  and adds exactly max(1, min(5, floor(30 / (elapsed + 1)))) coins, where elapsed is the
  race time at that tick.
\<close>

theorem reaching_end_wins:
  assumes "gameState s = playing" and "maze s = Some m"
    and "step (Move dx dy moving) s = Some s'"
    and "cell_of (fst (myPos s')) (snd (myPos s')) = endp m"
    and "(moving \<and> \<not> frozen s) \<or> cell_of (fst (myPos s)) (snd (myPos s)) \<noteq> endp m"
  shows "gameState s' = won \<and> coins s' = coins s + max 1 (min 5 \<lfloor>30 / (time s + 1)\<rfloor>)"
proof -
  from assms(1,3) have mv: "move dx dy moving s = Some s'" by simp
  have "moving \<and> \<not> frozen s"
  proof (rule ccontr)
    assume n: "\<not> (moving \<and> \<not> frozen s)"
    then have "myPos s' = myPos s" using move_idle [OF mv assms(2)] by blast
    with assms(4,5) n show False by simp
  qed
  then show ?thesis
    using move_done [OF mv assms(2) _ _ assms(1,4)] by (simp add: earned_def)
qed

definition at_goal :: app where
  "at_goal = app0\<lparr>gameState := playing, maze := Some open3, myPos := (70, 100), time := 9\<rparr>"

theorem reaching_end_wins_witness:
  "gameState at_goal = playing \<and> maze at_goal = Some open3 \<and>
   step (Move 12 0 True) at_goal = Some (the (step (Move 12 0 True) at_goal)) \<and>
   cell_of (fst (myPos (the (step (Move 12 0 True) at_goal))))
           (snd (myPos (the (step (Move 12 0 True) at_goal)))) = endp open3 \<and>
   cell_of (fst (myPos at_goal)) (snd (myPos at_goal)) \<noteq> endp open3 \<and>
   gameState (the (step (Move 12 0 True) at_goal)) = won \<and>
   coins (the (step (Move 12 0 True) at_goal)) = coins at_goal + 3"
proof -
  have a: "gameState at_goal = playing" "maze at_goal = Some open3" by code_simp+
  have b: "step (Move 12 0 True) at_goal \<noteq> None" by code_simp
  then have c: "step (Move 12 0 True) at_goal = Some (the (step (Move 12 0 True) at_goal))" by simp
  have d: "cell_of (fst (myPos (the (step (Move 12 0 True) at_goal))))
           (snd (myPos (the (step (Move 12 0 True) at_goal)))) = endp open3" by code_simp
  have e: "cell_of (fst (myPos at_goal)) (snd (myPos at_goal)) \<noteq> endp open3" by code_simp
  have f: "max 1 (min 5 \<lfloor>30 / (time at_goal + 1)\<rfloor>) = 3" by code_simp
  from reaching_end_wins [OF a c d] e f a c d show ?thesis by simp
qed

lemma maze_size_ge: "1 \<le> d \<Longrightarrow> 13 \<le> maze_size d"
proof -
  assume "1 \<le> d"
  then have "of_int 1 \<le> d * (3 / 2)" by simp
  then have "1 \<le> \<lfloor>d * (3 / 2)\<rfloor>" by (simp only: le_floor_iff)
  then show ?thesis by (simp add: maze_size_def)
qed

lemma initGame_total:
  assumes "1 \<le> difficulty s"
  shows "\<exists>m. generateMaze (maze_size (difficulty s)) (maze_size (difficulty s)) (difficulty s) rnd
               = Some (Inr m) \<and>
             width m = maze_size (difficulty s) \<and> height m = maze_size (difficulty s) \<and>
             initGame s target rnd =
               Some (s\<lparr>maze := Some m, myPos := start_pos m, gameState := target,
                  time := 0, trapTimer := TRAP_CYCLE_TIME + of_int \<lfloor>difficulty s / 2\<rfloor>,
                  winner := None, shopChosen := False, shopStarted := False,
                  distractorTimer := DISTRACTOR_DURATION,
                  wipeTimer := 10 + of_int \<lfloor>difficulty s / 2\<rfloor>\<rparr>)"
proof -
  from maze_size_ge [OF assms] have "1 \<le> maze_size (difficulty s)" "0 \<le> maze_size (difficulty s)"
    by simp_all
  from generateMaze_maze [OF this, of "difficulty s" rnd] obtain m where
    m: "generateMaze (maze_size (difficulty s)) (maze_size (difficulty s)) (difficulty s) rnd
          = Some (Inr m)" "width m = maze_size (difficulty s)" "height m = maze_size (difficulty s)"
    by blast
  then show ?thesis by (intro exI [of _ m]) (simp add: initGame_def Let_def)
qed

lemma practice_end_reached: "run practice_trace app0 = Some practice_end"
  by code_simp

lemma practice_end_tick: "step (Tick rng1 yellow) practice_end = Some playing_start"
  by code_simp

text \<open>
  C4, as stated: at the expiry of the practice timer the session goes to playing with the
  same maze. The session above refutes it: the tick that ends the practice round replaces
  the practice maze by a newly generated one.
\<close>

theorem practice_expiry_regenerates:
  "run practice_trace app0 = Some practice_end \<and> gameState practice_end = practice \<and>
   practiceTimer practice_end \<le> 1 / 10 \<and>
   step (Tick rng1 yellow) practice_end = Some playing_start \<and>
   gameState playing_start = playing \<and> maze playing_start \<noteq> maze practice_end"
proof -
  have "gameState practice_end = practice" "practiceTimer practice_end \<le> 1 / 10"
    "gameState playing_start = playing"
    by (simp_all add: practice_end_def playing_start_def)
  moreover have "maze playing_start \<noteq> maze practice_end"
    by (simp add: practice_end_def playing_start_def maze13a_def maze13b_def)
  ultimately show ?thesis using practice_end_reached practice_end_tick by simp
qed

lemma practice_tick:
  assumes "1 \<le> difficulty s" and "gameState s = practice" and "practiceTimer s \<le> 1 / 10"
  shows "\<exists>s' m. step (Tick rnd fl) s = Some s' \<and> gameState s' = playing \<and>
           difficulty s' = difficulty s \<and> phase s' = phase s \<and>
           generateMaze (maze_size (difficulty s)) (maze_size (difficulty s)) (difficulty s) rnd
             = Some (Inr m) \<and>
           maze s' = Some m \<and> time s' = 0 \<and> myPos s' = start_pos m \<and>
           coins s' = coins s \<and> pendingShop s' = pendingShop s \<and> \<not> shopChosen s' \<and>
           distractorTimer s' = DISTRACTOR_DURATION"
proof -
  let ?s1 = "trap_tick fl (wipe_tick s)"
  have d: "difficulty ?s1 = difficulty s" and p: "practiceTimer ?s1 = practiceTimer s"
    and ph: "phase ?s1 = phase s" and c: "coins ?s1 = coins s"
    and ps: "pendingShop ?s1 = pendingShop s"
    by (simp_all add: trap_tick_keeps wipe_tick_keeps)
  from assms(1) have "1 \<le> difficulty ?s1" by (simp add: d)
  from initGame_total [OF this, of rnd playing] obtain m where
    m: "generateMaze (maze_size (difficulty s)) (maze_size (difficulty s)) (difficulty s) rnd
          = Some (Inr m)"
    and i: "initGame ?s1 playing rnd =
        Some (?s1\<lparr>maze := Some m, myPos := start_pos m, gameState := playing,
           time := 0, trapTimer := TRAP_CYCLE_TIME + of_int \<lfloor>difficulty s / 2\<rfloor>,
           winner := None, shopChosen := False, shopStarted := False,
           distractorTimer := DISTRACTOR_DURATION,
           wipeTimer := 10 + of_int \<lfloor>difficulty s / 2\<rfloor>\<rparr>)"
    unfolding d by blast
  have "step (Tick rnd fl) s = map_option (\<lambda>s'. s'\<lparr>practiceTimer := 0\<rparr>) (initGame ?s1 playing rnd)"
    using assms(2,3) by (simp add: tick_def practice_clock_def p)
  then show ?thesis using m d ph c ps by (simp add: i)
qed

text \<open>
  C4, amended. When the practice timer expires while the state is practice, the tick
  calls \<open>initGame(undefined, 'playing')\<close>: the session goes to playing with the same
  difficulty and with a maze newly generated by generateMaze for that difficulty (of the
  size that belongs to it), the elapsed time reset and the player at the start of the new
  maze.
\<close>

theorem practice_expiry_starts_new_maze:
  assumes "reachable s" and "gameState s = practice" and "practiceTimer s \<le> 1 / 10"
  shows "\<exists>s' m. step (Tick rnd fl) s = Some s' \<and> gameState s' = playing \<and>
           difficulty s' = difficulty s \<and> phase s' = phase s \<and>
           generateMaze (maze_size (difficulty s)) (maze_size (difficulty s)) (difficulty s) rnd
             = Some (Inr m) \<and>
           maze s' = Some m \<and> time s' = 0 \<and> myPos s' = start_pos m"
  using practice_tick [OF _ assms(2,3), of rnd fl] reachable_difficulty [OF assms(1)]
  by blast

theorem practice_expiry_starts_new_maze_witness:
  "reachable practice_end \<and> gameState practice_end = practice \<and>
   practiceTimer practice_end \<le> 1 / 10 \<and>
   (\<exists>s' m. step (Tick rng1 yellow) practice_end = Some s' \<and> gameState s' = playing \<and>
      difficulty s' = difficulty practice_end \<and> phase s' = phase practice_end \<and>
      generateMaze (maze_size (difficulty practice_end)) (maze_size (difficulty practice_end))
        (difficulty practice_end) rng1 = Some (Inr m) \<and>
      maze s' = Some m \<and> time s' = 0 \<and> myPos s' = start_pos m)"
proof -
  have r: "reachable practice_end" unfolding reachable_def using practice_end_reached by blast
  have g: "gameState practice_end = practice" and t: "practiceTimer practice_end \<le> 1 / 10"
    by (simp_all add: practice_end_def)
  from practice_expiry_starts_new_maze [OF r g t, of rng1 yellow] r g t show ?thesis by blast
qed

subsection \<open>Phases\<close>

lemma step_phase:
  assumes "step e s = Some s'"
  shows "phase s' = phase s \<or>
         (phase s' = phase s + 1 \<and> gameState s = distractor \<and> distractorTimer s \<le> 1 / 10 \<and>
          (\<exists>rnd fl. e = Tick rnd fl))"
proof (cases e)
  case (Tick rnd fl)
  then show ?thesis
    using assms
    by (auto simp: tick_def Let_def phase_clock_def practice_clock_def shop_clock_def
        distractor_clock_def trap_tick_keeps wipe_tick_keeps initGame_keeps
        split: if_splits)
next
  case (Move dx dy moving)
  then show ?thesis
    using assms
    by (auto simp: move_def Let_def win_def respawn_keeps split: option.splits if_splits sum.splits)
qed (use assms in \<open>auto simp: respawn_keeps initGame_keeps Let_def split: if_splits list.splits\<close>)

lemma wipe_tick_state:
  "gameState (wipe_tick s) = gameState s \<or> gameState (wipe_tick s) = respawning"
  by (simp add: wipe_tick_def respawn_def split: option.splits)

lemma step_gameover:
  assumes "step e s = Some s'" "gameState s' = gameover" "gameState s \<noteq> gameover"
  shows "gameState s = playing \<and> phaseTime s \<le> 1 / 10 \<and> 3 \<le> phase s \<and> (\<exists>rnd fl. e = Tick rnd fl)
         \<or> e = RespawnTimeout"
proof (cases e)
  case (Tick rnd fl)
  then show ?thesis
    using assms wipe_tick_state [of s]
    by (auto simp: tick_def Let_def phase_clock_def practice_clock_def shop_clock_def
        distractor_clock_def trap_tick_keeps wipe_tick_keeps initGame_keeps
        split: if_splits)
next
  case (Move dx dy moving)
  then show ?thesis
    using assms
    by (auto simp: move_def Let_def win_def respawn_def split: option.splits if_splits sum.splits)
qed (use assms in \<open>auto simp: respawn_def initGame_keeps Let_def split: if_splits list.splits option.splits\<close>)

lemma run_append:
  "run (es @ fs) s = (case run es s of None \<Rightarrow> None | Some s' \<Rightarrow> run fs s')"
  by (induction es arbitrary: s) (auto split: option.splits)

lemma run_chain:
  "run es s = Some s1 \<Longrightarrow> run fs s1 = Some s2 \<Longrightarrow> run (es @ fs) s = Some s2"
  by (simp add: run_append)

definition same_ctl :: "app \<Rightarrow> app \<Rightarrow> bool" where
  "same_ctl s s' = (phase s' = phase s \<and> coins s' = coins s \<and> difficulty s' = difficulty s \<and>
                    pendingShop s' = pendingShop s)"

lemma skip_practice:
  assumes "gameState s = practice" "1 \<le> difficulty s"
  shows "\<exists>s'. run [DebugSkip, Tick rnd fl] s = Some s' \<and> gameState s' = playing \<and> same_ctl s s' \<and>
              \<not> shopChosen s' \<and> distractorTimer s' = DISTRACTOR_DURATION"
proof -
  let ?s1 = "s\<lparr>debugMode := True, practiceTimer := 1 / 10\<rparr>"
  have a: "step DebugSkip s = Some ?s1" using assms(1) by (simp add: Let_def)
  have "1 \<le> difficulty ?s1" "gameState ?s1 = practice" "practiceTimer ?s1 \<le> 1 / 10"
    using assms by simp_all
  from practice_tick [OF this, of rnd fl] obtain s' where
    "step (Tick rnd fl) ?s1 = Some s'" "gameState s' = playing" "difficulty s' = difficulty s"
    "phase s' = phase s" "coins s' = coins s" "pendingShop s' = pendingShop s"
    "\<not> shopChosen s'" "distractorTimer s' = DISTRACTOR_DURATION"
    by auto
  then show ?thesis using a by (intro exI [of _ s']) (simp add: same_ctl_def)
qed

lemma skip_playing:
  assumes "gameState s = playing" "phase s < 3"
  shows "\<exists>s'. run [DebugSkip, Tick rnd fl] s = Some s' \<and> gameState s' = shop \<and> same_ctl s s' \<and>
              shopChosen s' = shopChosen s \<and> distractorTimer s' = distractorTimer s"
  using assms
  by (simp add: Let_def tick_def phase_clock_def trap_tick_def wipe_tick_def same_ctl_def)

lemma skip_playing_last:
  assumes "gameState s = playing" "3 \<le> phase s"
  shows "\<exists>s'. run [DebugSkip, Tick rnd fl] s = Some s' \<and> gameState s' = gameover \<and>
              phase s' = phase s"
  using assms
  by (simp add: Let_def tick_def phase_clock_def trap_tick_keeps wipe_tick_keeps
      trap_tick_def wipe_tick_def respawn_def split: option.splits)

lemma skip_shop:
  assumes "gameState s = shop"
  shows "\<exists>s'. run [DebugSkip, Tick rnd fl] s = Some s' \<and> gameState s' = distractor \<and>
              same_ctl s s' \<and> shopChosen s' = shopChosen s \<and>
              distractorTimer s' = distractorTimer s"
  using assms by (simp add: Let_def tick_def shop_clock_def same_ctl_def)

lemma skip_distractor:
  assumes "gameState s = distractor" "phase s = 1 \<or> phase s = 2"
  shows "\<exists>s'. run [DebugSkip, Tick rnd fl] s = Some s' \<and> gameState s' = tutorial \<and>
              phase s' = phase s + 1 \<and>
              tutorialStep s' = (if phase s = 1 then t_phase2 else t_phase3) \<and>
              distractorTimer s' = 0 \<and> coins s' = coins s \<and> difficulty s' = difficulty s \<and>
              pendingShop s' = pendingShop s"
  using assms by (auto simp: Let_def tick_def distractor_clock_def)

lemma tutorial_to_practice:
  assumes "gameState s = tutorial" "tutorialStep s = t_phase2 \<or> tutorialStep s = t_phase3"
    "1 \<le> difficulty s"
  shows "\<exists>s'. step (TutorialButton rnd) s = Some s' \<and> gameState s' = practice \<and> same_ctl s s'"
proof -
  from initGame_total [OF assms(3), of rnd practice] obtain s1 where
    i: "initGame s practice rnd = Some s1" by blast
  from initGame_keeps [OF i] have "gameState s1 = practice" "same_ctl s s1"
    by (simp_all add: same_ctl_def)
  then show ?thesis using assms(1,2) i by (auto simp: same_ctl_def)
qed

lemma stale_distractor_tick:
  assumes "gameState s = distractor" "distractorTimer s \<le> 1 / 10" "3 \<le> phase s"
    "1 \<le> difficulty s"
  shows "\<exists>s'. step (Tick rnd fl) s = Some s' \<and> gameState s' = playing \<and> phase s' = phase s + 1"
proof -
  let ?s1 = "s\<lparr>phase := phase s + 1, phaseMazes := 0\<rparr>"
  have "1 \<le> difficulty ?s1" using assms(4) by simp
  from initGame_total [OF this, of rnd playing] obtain s2 where
    i: "initGame ?s1 playing rnd = Some s2" by blast
  from initGame_keeps [OF i] have "gameState s2 = playing" "phase s2 = phase s + 1" by simp_all
  then show ?thesis
    using assms(1,2,3) i by (simp add: tick_def distractor_clock_def Let_def)
qed

lemma phase2_shop_reached:
  "\<exists>s. run to_phase2_shop app0 = Some s \<and> gameState s = shop \<and> phase s = 2 \<and> coins s = 10 \<and>
        difficulty s = 1 \<and> pendingShop s = 0 \<and> \<not> shopChosen s"
proof -
  have t: "tick rng1 yellow practice_end = Some playing_start"
    using practice_end_tick by simp
  have c: "coins playing_start = 0" by (simp add: playing_start_def practice_end_def)
  have r0: "run (practice_trace @ [Tick rng1 yellow, DebugCoins]) app0 = Some (playing_start\<lparr>coins := 10\<rparr>)"
    by (simp add: run_append practice_end_reached t c)
  let ?s0 = "playing_start\<lparr>coins := 10\<rparr>"
  have f0: "gameState ?s0 = playing" "phase ?s0 = 1" "coins ?s0 = 10" "difficulty ?s0 = 1"
    "pendingShop ?s0 = 0"
    by (simp_all add: playing_start_def practice_end_def)
  from skip_playing [of ?s0 rng0 yellow] f0 obtain s1 where
    s1: "run [DebugSkip, Tick rng0 yellow] ?s0 = Some s1" "gameState s1 = shop" "same_ctl ?s0 s1"
    by auto
  from skip_shop [OF s1(2), of rng0 yellow] obtain s2 where
    s2: "run [DebugSkip, Tick rng0 yellow] s1 = Some s2" "gameState s2 = distractor" "same_ctl s1 s2"
    by auto
  have p2: "phase s2 = 1" using s1(3) s2(3) f0 by (simp add: same_ctl_def)
  from skip_distractor [OF s2(2), of rng0 yellow] p2 obtain s3 where
    s3: "run [DebugSkip, Tick rng0 yellow] s2 = Some s3" "gameState s3 = tutorial" "phase s3 = 2"
      "tutorialStep s3 = t_phase2" "coins s3 = coins s2" "difficulty s3 = difficulty s2"
      "pendingShop s3 = pendingShop s2"
    by auto
  have d3: "difficulty s3 = 1" "coins s3 = 10" "pendingShop s3 = 0"
    using s1(3) s2(3) s3(5,6,7) f0 by (simp_all add: same_ctl_def)
  from tutorial_to_practice [OF s3(2), of rng0] s3(4) d3 obtain s4 where
    s4: "step (TutorialButton rng0) s3 = Some s4" "gameState s4 = practice" "same_ctl s3 s4"
    by auto
  have d4: "1 \<le> difficulty s4" using s4(3) d3 by (simp add: same_ctl_def)
  from skip_practice [OF s4(2) d4, of rng1 yellow] obtain s5 where
    s5: "run [DebugSkip, Tick rng1 yellow] s4 = Some s5" "gameState s5 = playing" "same_ctl s4 s5"
      "\<not> shopChosen s5"
    by auto
  have p5: "phase s5 < 3" using s3(3) s4(3) s5(3) by (simp add: same_ctl_def)
  from skip_playing [OF s5(2) p5, of rng0 yellow] obtain s6 where
    s6: "run [DebugSkip, Tick rng0 yellow] s5 = Some s6" "gameState s6 = shop" "same_ctl s5 s6"
      "shopChosen s6 = shopChosen s5"
    by auto
  have s4': "run [TutorialButton rng0] s3 = Some s4" using s4(1) by simp
  note r = run_chain [OF run_chain [OF run_chain [OF run_chain [OF run_chain [OF run_chain
             [OF r0 s1(1)] s2(1)] s3(1)] s4'] s5(1)] s6(1)]
  have "run to_phase2_shop app0 = Some s6"
    using r by (simp add: to_phase2_shop_def)
  moreover have "phase s6 = 2" "coins s6 = 10" "difficulty s6 = 1" "pendingShop s6 = 0"
    using s3(3) d3 s4(3) s5(3) s6(3) by (simp_all add: same_ctl_def)
  ultimately show ?thesis using s6(2,4) s5(4) by blast
qed

text \<open>
  C5. The phase is raised only by the expiry of the distractor timer, by one; but the
  deferred change to distractor that a shop choice schedules is never cancelled. In the
  session below it fires after phase 3 has begun, the distractor timer (left at 0)
  expires at once, and the phase becomes 4; the race of phase 4 then ends in gameover
  with the phase at 4.
\<close>

theorem stale_shop_timer_reaches_phase_4:
  "(\<exists>s. run (to_phase2_shop @ stale_shop_timer) app0 = Some s \<and> gameState s = playing \<and> phase s = 4) \<and>
   (\<exists>s. run (to_phase2_shop @ stale_shop_timer @ [DebugSkip, Tick rng0 yellow]) app0 = Some s \<and>
        gameState s = gameover \<and> phase s = 4)"
proof -
  from phase2_shop_reached obtain s0 where
    s0: "run to_phase2_shop app0 = Some s0" "gameState s0 = shop" "phase s0 = 2" "coins s0 = 10"
      "difficulty s0 = 1" "pendingShop s0 = 0" "\<not> shopChosen s0"
    by blast
  let ?s1 = "s0\<lparr>shopChosen := True, coins := coins s0 - 2, pendingShop := pendingShop s0 + 1\<rparr>"
  have b: "run [ShopBuy] s0 = Some ?s1" using s0 by simp
  have g1: "gameState ?s1 = shop" using s0 by simp
  from skip_shop [OF g1, of rng0 yellow] obtain s2 where
    s2: "run [DebugSkip, Tick rng0 yellow] ?s1 = Some s2" "gameState s2 = distractor" "same_ctl ?s1 s2"
    by auto
  have p2: "phase s2 = 1 \<or> phase s2 = 2" using s2(3) s0 by (simp add: same_ctl_def)
  from skip_distractor [OF s2(2) p2, of rng0 yellow] obtain s3 where
    s3: "run [DebugSkip, Tick rng0 yellow] s2 = Some s3" "gameState s3 = tutorial"
      "phase s3 = phase s2 + 1" "distractorTimer s3 = 0" "difficulty s3 = difficulty s2"
      "pendingShop s3 = pendingShop s2"
    by auto
  have f3: "phase s3 = 3" "pendingShop s3 = 1" "difficulty s3 = 1"
    using s2(3) s3(3,5,6) s0 by (simp_all add: same_ctl_def)
  let ?s4 = "s3\<lparr>pendingShop := pendingShop s3 - 1, gameState := distractor\<rparr>"
  have t: "run [ShopTimeout] s3 = Some ?s4" using f3 by simp
  have f4: "gameState ?s4 = distractor" "distractorTimer ?s4 \<le> 1 / 10" "3 \<le> phase ?s4"
    "1 \<le> difficulty ?s4"
    using s3(4) f3 by simp_all
  from stale_distractor_tick [OF f4, of rng0 yellow] obtain s5 where
    s5: "step (Tick rng0 yellow) ?s4 = Some s5" "gameState s5 = playing" "phase s5 = phase ?s4 + 1"
    by blast
  have s5': "run [Tick rng0 yellow] ?s4 = Some s5" using s5(1) by simp
  have p5: "phase s5 = 4" using s5(3) f3 by simp
  note r = run_chain [OF run_chain [OF run_chain [OF run_chain [OF run_chain
             [OF s0(1) b] s2(1)] s3(1)] t] s5']
  have r5: "run (to_phase2_shop @ stale_shop_timer) app0 = Some s5"
    using r by (simp add: stale_shop_timer_def)
  have "3 \<le> phase s5" using p5 by simp
  from skip_playing_last [OF s5(2) this, of rng0 yellow] obtain s6 where
    s6: "run [DebugSkip, Tick rng0 yellow] s5 = Some s6" "gameState s6 = gameover"
      "phase s6 = phase s5"
    by blast
  have r6: "run (to_phase2_shop @ stale_shop_timer @ [DebugSkip, Tick rng0 yellow]) app0 = Some s6"
    using run_chain [OF r5 s6(1)] by simp
  show ?thesis using r5 s5(2) p5 r6 s6(2,3) by auto
qed

subsection \<open>Properties of the collision check\<close>















subsection \<open>Properties of the relay\<close>

lemma two_rooms_eval:
  "clients two_rooms =
     [(1, \<lparr>readyOpen = True, currentRoomId = Some ''A'', playerId = Some ''p1''\<rparr>),
      (2, \<lparr>readyOpen = True, currentRoomId = Some ''B'', playerId = Some ''p2''\<rparr>)]"
  by (simp add: two_rooms_def on_connection_def server0_def on_message_def on_join_def
      join_msg_def set_client_def Let_def)

text \<open>
  C1. A broadcast for an event in room A reaches a connection that joined only room B:
  after connection 1 joined room A and connection 2 joined room B, the position update of
  connection 1 is sent to connection 2 (and the game-over notice of connection 1 to both).
\<close>

theorem broadcast_leaks_across_rooms:
  "joined_room two_rooms 1 = Some ''A'' \<and> joined_room two_rooms 2 = Some ''B'' \<and>
   recipients (on_message two_rooms 1 (Parsed update_msg)) = [2] \<and>
   recipients (on_message two_rooms 1 (Parsed (update_msg\<lparr>m_type := ''WIN''\<rparr>))) = [1, 2]"
  by (simp add: two_rooms_def on_connection_def server0_def on_message_def on_join_def
      on_update_def on_win_def join_msg_def update_msg_def set_client_def Let_def
      joined_room_def recipients_def broadcastToRoom_def truthy_def)

lemma unknown_type_returns:
  "m_type msg \<notin> {''JOIN_ROOM'', ''UPDATE_POSITION'', ''WIN''} \<Longrightarrow>
   on_message s c (Parsed msg) = Returns s []"
  by (simp add: on_message_def split: option.splits)

text \<open>
  C8. A parsed message of an unknown type is ignored, as the claim says: the handler
  returns, the state is unchanged, nothing is sent, and the relay goes on (the position
  update that follows is relayed). A frame that does not parse is not ignored: the
  handler is left by the SyntaxError of \<open>JSON.parse\<close> (for the text \<open>null\<close>, by a TypeError at
  \<open>message.type\<close>), the relay process ends, and the position update that follows is
  relayed to nobody.
\<close>

theorem malformed_frame_ends_relay:
  "on_message two_rooms 1 (Parsed ping_msg) = Returns two_rooms [] \<and>
   map fst (fst (serve two_rooms [(1, Parsed ping_msg), (2, Parsed update_msg)])) = [1] \<and>
   on_message two_rooms 1 Malformed = Throws SyntaxError \<and>
   on_message two_rooms 1 ParsedNull = Throws TypeError \<and>
   serve two_rooms [(1, Malformed), (2, Parsed update_msg)] = ([], Down SyntaxError) \<and>
   serve two_rooms [(1, ParsedNull), (2, Parsed update_msg)] = ([], Down TypeError)"
proof -
  have p: "on_message two_rooms 1 (Parsed ping_msg) = Returns two_rooms []"
    by (rule unknown_type_returns) (simp add: ping_msg_def)
  have u: "recipients (on_message two_rooms 2 (Parsed update_msg)) = [1]"
    by (simp add: two_rooms_def on_connection_def server0_def on_message_def on_join_def
        on_update_def join_msg_def update_msg_def set_client_def Let_def
        recipients_def broadcastToRoom_def truthy_def)
  have m: "on_message two_rooms 1 Malformed = Throws SyntaxError"
    "on_message two_rooms 1 ParsedNull = Throws TypeError"
    by (simp_all add: on_message_def)
  obtain s' out where r: "on_message two_rooms 2 (Parsed update_msg) = Returns s' out"
    and o: "map fst out = [1]"
    using u by (cases "on_message two_rooms 2 (Parsed update_msg)") (simp_all add: recipients_def)
  have "serve two_rooms [(1, Parsed ping_msg), (2, Parsed update_msg)] = (out, Up s')"
    by (simp only: serve.simps p r reply.case prod.case append_Nil append_Nil2)
  then have a: "map fst (fst (serve two_rooms [(1, Parsed ping_msg), (2, Parsed update_msg)])) = [1]"
    using o by (simp only: fst_conv)
  have b: "serve two_rooms [(1, Malformed), (2, Parsed update_msg)] = ([], Down SyntaxError)"
    "serve two_rooms [(1, ParsedNull), (2, Parsed update_msg)] = ([], Down TypeError)"
    by (simp_all only: serve.simps m reply.case)
  show ?thesis using p a m b by (intro conjI)
qed

end
